theory Spec2Isabelle
  imports Complex_Main "HOL-Library.AList" "HOL-Library.Multiset"
begin


section \<open>Identity tracker (tracker.py)\<close>

text \<open>
  The camera produces the gender labels \<open>'Male'\<close>, \<open>'Female'\<close> (GENDER_LIST) and
  \<open>'Unknown'\<close>; the tracker only compares a label with \<open>'Unknown'\<close>.
\<close>

datatype gender_label = Male | Female | Unknown

type_synonym bbox_t = "int \<times> int \<times> int \<times> int"
type_synonym centroid_t = "int \<times> int"

text \<open>
  One entry of \<open>rects\<close>: \<open>{'bbox': (x, y, w, h), 'gender': str, 'confidence': float}\<close>.
  A tracked object has the same three keys and \<open>centroid\<close>, \<open>gender_history\<close>,
  \<open>hits\<close>. The dictionaries \<open>objects\<close>, \<open>disappeared\<close> and \<open>history\<close> of the tracker
  always have the same keys (only \<open>register\<close> and \<open>deregister\<close> add or remove a key, in
  all three), so the counter \<open>disappeared[id]\<close> is kept as a field of the object;
  \<open>history[id]\<close> is written once and never read, and is left out.
\<close>

record rect =
  bbox :: bbox_t
  gender :: gender_label
  confidence :: real

record track = rect +
  centroid :: centroid_t
  gender_history :: "gender_label list"
  hits :: nat
  disappeared :: nat

text \<open>
  \<open>objects\<close> is an OrderedDict: an association list in insertion order, written with
  \<open>AList.update\<close> (an existing key keeps its place, a new key goes to the end) and
  \<open>AList.delete\<close>.
\<close>

record tracker =
  next_object_id :: nat
  objects :: "(nat \<times> track) list"
  max_disappeared :: nat
  max_distance :: nat

definition EuclideanDistTracker :: "nat \<Rightarrow> nat \<Rightarrow> tracker" where
  "EuclideanDistTracker md mdist =
     \<lparr>next_object_id = 0, objects = [], max_disappeared = md, max_distance = mdist\<rparr>"

text \<open>\<open>VideoCamera.__init__\<close>: \<open>EuclideanDistTracker(max_disappeared=50, max_distance=150)\<close>.\<close>

definition camera_tracker :: tracker where
  "camera_tracker = EuclideanDistTracker 50 150"

definition register :: "tracker \<Rightarrow> centroid_t \<Rightarrow> bbox_t \<Rightarrow> gender_label \<Rightarrow> real \<Rightarrow> tracker" where
  "register s c b g conf =
     s\<lparr>objects := AList.update (next_object_id s)
          \<lparr>bbox = b, gender = g, confidence = conf, centroid = c,
           gender_history = [g], hits = 1, disappeared = 0\<rparr> (objects s),
       next_object_id := next_object_id s + 1\<rparr>"

definition deregister :: "tracker \<Rightarrow> nat \<Rightarrow> tracker" where
  "deregister s object_id = s\<lparr>objects := AList.delete object_id (objects s)\<rparr>"

text \<open>
  \<open>int(x + w / 2.0)\<close>: the sum is exact in floating point for integer \<open>x\<close>, \<open>w\<close>, and
  \<open>int\<close> truncates towards zero.
\<close>

definition trunc_half :: "int \<Rightarrow> int" where
  "trunc_half n = (if 0 \<le> n then n div 2 else - ((- n) div 2))"

definition input_centroid :: "rect \<Rightarrow> centroid_t" where
  "input_centroid r = (case bbox r of (x, y, w, h) \<Rightarrow> (trunc_half (2 * x + w), trunc_half (2 * y + h)))"

text \<open>
  \<open>_dist\<close>: the matrix of Euclidean distances between integer points. The code only
  orders these distances and compares them with \<open>max_distance\<close>; a distance is the
  square root of an integer and the root is monotone, so the matrix holds the squared
  distances and the bound is squared as well.
\<close>

definition dist_sq :: "centroid_t list \<Rightarrow> centroid_t list \<Rightarrow> int list list" where
  "dist_sq a b =
     map (\<lambda>p. map (\<lambda>q. (fst p - fst q) * (fst p - fst q) + (snd p - snd q) * (snd p - snd q)) b) a"

text \<open>\<open>argmin\<close>: the index of the first minimum of a row.\<close>

definition argmin :: "int list \<Rightarrow> nat" where
  "argmin xs = length (takeWhile (\<lambda>x. x \<noteq> min_list xs) xs)"

text \<open>
  Two choices are left to the runtime. \<open>argsort\<close> returns the indices in ascending order
  of their keys, and numpy's default sort is free in the order of equal keys. The sets
  \<open>unused_rows\<close> and \<open>unused_cols\<close> are iterated in the order of Python's set. A
  \<open>runtime\<close> holds both choices: \<open>argsort_impl\<close>, and \<open>set_iter n xs\<close>, the order in
  which \<open>set(range(0, n)).difference(used)\<close> is iterated when \<open>xs\<close> are its elements in
  ascending order.
\<close>

record runtime =
  argsort_impl :: "int list \<Rightarrow> nat list"
  set_iter :: "nat \<Rightarrow> nat list \<Rightarrow> nat list"

text \<open>
  What numpy and Python promise of the two: the result of \<open>argsort\<close> is a permutation of
  the indices that puts the keys in ascending order, and a set is iterated once through
  each of its elements.
\<close>

definition runtime_ok :: "runtime \<Rightarrow> bool" where
  "runtime_ok rt =
     ((\<forall>ks. mset (argsort_impl rt ks) = mset [0..<length ks]
            \<and> sorted (map (\<lambda>i. ks ! i) (argsort_impl rt ks)))
      \<and> (\<forall>n xs. mset (set_iter rt n xs) = mset xs))"

text \<open>
  The runtime of the examples: equal keys stay in index order (a stable sort), and a set
  of small integers is iterated in ascending order.
\<close>

definition argsort :: "int list \<Rightarrow> nat list" where
  "argsort ks = sort_key (\<lambda>i. ks ! i) [0..<length ks]"

definition reference_runtime :: runtime where
  "reference_runtime = \<lparr>argsort_impl = argsort, set_iter = (\<lambda>n xs. xs)\<rparr>"

subsection \<open>Majority vote\<close>

text \<open>
  \<open>Counter(xs)\<close> counts in a dictionary, so its items are in the order in which the
  labels first occur. \<open>most_common(1)\<close> is \<open>max\<close> over the items with the count as key:
  the first item with the largest count.
\<close>

definition Counter :: "'a list \<Rightarrow> ('a \<times> nat) list" where
  "Counter xs =
     foldl (\<lambda>c x. AList.update x (case map_of c x of None \<Rightarrow> 1 | Some n \<Rightarrow> n + 1) c) [] xs"

fun max_item :: "('a \<times> nat) \<Rightarrow> ('a \<times> nat) list \<Rightarrow> ('a \<times> nat)" where
  "max_item b [] = b"
| "max_item b (y # ys) = max_item (if snd b < snd y then y else b) ys"

definition most_common :: "'a list \<Rightarrow> 'a option" where
  "most_common xs = (case Counter xs of [] \<Rightarrow> None | b # ys \<Rightarrow> Some (fst (max_item b ys)))"

text \<open>The history after \<open>append(g)\<close> and \<open>pop(0)\<close> when it is longer than 20.\<close>

definition push_history :: "gender_label list \<Rightarrow> gender_label \<Rightarrow> gender_label list" where
  "push_history h g = (let h' = h @ [g] in if length h' > 20 then tl h' else h')"

text \<open>The body of the matching loop for an accepted pair, on the matched object.\<close>

definition matched :: "track \<Rightarrow> centroid_t \<Rightarrow> rect \<Rightarrow> track" where
  "matched t c r =
     (let t1 = t\<lparr>centroid := c, bbox := bbox r\<rparr>;
          t2 = (if gender r \<noteq> Unknown then
                  (let h = push_history (gender_history t1) (gender r)
                   in t1\<lparr>gender_history := h,
                         gender := (case most_common h of Some g \<Rightarrow> g | None \<Rightarrow> gender t1)\<rparr>)
                else t1)
      in t2\<lparr>confidence := max (confidence t2) (confidence r),
            hits := hits t2 + 1, disappeared := 0\<rparr>)"

text \<open>
  The lookups \<open>self.objects[object_id]\<close> and \<open>self.disappeared[object_id]\<close> are made with
  keys read from \<open>objects\<close> in the same call; a missing key leaves the state as it is.
\<close>

definition update_matched :: "tracker \<Rightarrow> nat \<Rightarrow> centroid_t \<Rightarrow> rect \<Rightarrow> tracker" where
  "update_matched s object_id c r =
     (case map_of (objects s) object_id of
        None \<Rightarrow> s
      | Some t \<Rightarrow> s\<lparr>objects := AList.update object_id (matched t c r) (objects s)\<rparr>)"

text \<open>\<open>disappeared[id] += 1\<close>, and \<open>deregister\<close> when it exceeds \<open>max_disappeared\<close>.\<close>

definition age :: "tracker \<Rightarrow> nat \<Rightarrow> tracker" where
  "age s object_id =
     (case map_of (objects s) object_id of
        None \<Rightarrow> s
      | Some t \<Rightarrow>
          (if disappeared t + 1 > max_disappeared s then deregister s object_id
           else s\<lparr>objects := AList.update object_id (t\<lparr>disappeared := disappeared t + 1\<rparr>) (objects s)\<rparr>))"

text \<open>
  One step of \<open>for (row, col) in zip(rows, cols)\<close>. The loop state is the tracker and the
  sets \<open>used_rows\<close>, \<open>used_cols\<close>, kept as lists with the newest element first.
\<close>

fun match_step ::
  "int list list \<Rightarrow> nat list \<Rightarrow> centroid_t list \<Rightarrow> rect list \<Rightarrow>
   tracker \<times> nat list \<times> nat list \<Rightarrow> nat \<times> nat \<Rightarrow> tracker \<times> nat list \<times> nat list" where
  "match_step D object_ids input_centroids rects (s, used_rows, used_cols) (row, col) =
     (if row \<in> set used_rows \<or> col \<in> set used_cols then (s, used_rows, used_cols)
      else if D ! row ! col > int (max_distance s * max_distance s) then (s, used_rows, used_cols)
      else (update_matched s (object_ids ! row) (input_centroids ! col) (rects ! col),
            row # used_rows, col # used_cols))"

definition match_loop :: "runtime \<Rightarrow> tracker \<Rightarrow> rect list \<Rightarrow> tracker \<times> nat list \<times> nat list" where
  "match_loop rt s rects =
     (let input_centroids = map input_centroid rects;
          object_ids = map fst (objects s);
          object_centroids = map (\<lambda>p. centroid (snd p)) (objects s);
          D = dist_sq object_centroids input_centroids;
          rows = argsort_impl rt (map min_list D);
          cols = map (\<lambda>r. argmin (D ! r)) rows
      in foldl (match_step D object_ids input_centroids rects) (s, [], []) (zip rows cols))"

text \<open>\<open>update\<close>, under a runtime.\<close>

definition update :: "runtime \<Rightarrow> tracker \<Rightarrow> rect list \<Rightarrow> tracker" where
  "update rt s rects =
     (if length rects = 0 then foldl age s (map fst (objects s))
      else
        (let input_centroids = map input_centroid rects;
             reg = (\<lambda>s' i. register s' (input_centroids ! i) (bbox (rects ! i))
                              (gender (rects ! i)) (confidence (rects ! i)))
         in if length (objects s) = 0 then foldl reg s [0..<length rects]
            else
              (case match_loop rt s rects of
                 (s1, used_rows, used_cols) \<Rightarrow>
                   (let object_ids = map fst (objects s);
                        unused_rows = set_iter rt (length (objects s))
                          (filter (\<lambda>r. r \<notin> set used_rows) [0..<length (objects s)]);
                        unused_cols = set_iter rt (length rects)
                          (filter (\<lambda>c. c \<notin> set used_cols) [0..<length rects]);
                        s2 = foldl (\<lambda>s' row. age s' (object_ids ! row)) s1 unused_rows
                    in foldl reg s2 unused_cols))))"

text \<open>The tracker after a sequence of frames, one call of \<open>update\<close> per frame.\<close>

definition run :: "runtime \<Rightarrow> tracker \<Rightarrow> rect list list \<Rightarrow> tracker" where
  "run rt s frames = foldl (update rt) s frames"

section \<open>Crowd aggregation (camera.py, get_frame)\<close>

text \<open>
  The counting loop of \<open>get_frame\<close> over \<open>objects.items()\<close>, with the loop state
  \<open>(male, female)\<close>, and the dictionary \<open>counts\<close> built from it.
\<close>

fun count_step :: "nat \<times> nat \<Rightarrow> nat \<times> track \<Rightarrow> nat \<times> nat" where
  "count_step (male, female) (obj_id, obj) =
     (if hits obj \<ge> 10 then
        (if gender obj = Male then (male + 1, female)
         else if gender obj = Female then (male, female + 1)
         else (male, female))
      else (male, female))"

definition get_frame_counts :: "(nat \<times> track) list \<Rightarrow> (string \<rightharpoonup> nat)" where
  "get_frame_counts objs =
     (case foldl count_step (0, 0) objs of
        (male, female) \<Rightarrow> [''total'' \<mapsto> male + female, ''male'' \<mapsto> male, ''female'' \<mapsto> female])"

text \<open>The tracks that the aggregation counts for a label.\<close>

definition confirmed :: "gender_label \<Rightarrow> (nat \<times> track) list \<Rightarrow> (nat \<times> track) list" where
  "confirmed g objs = filter (\<lambda>p. 10 \<le> hits (snd p) \<and> gender (snd p) = g) objs"

section \<open>Advertisement manager (ad_manager.py, config.py)\<close>

text \<open>
  \<open>config.AD_DISPLAY_DURATION\<close> and \<open>config.AD_TRIGGER_DELAY\<close>, at their defaults
  (the environment may override them).
\<close>

definition AD_DISPLAY_DURATION :: real where
  "AD_DISPLAY_DURATION = 15"

definition AD_TRIGGER_DELAY :: real where
  "AD_TRIGGER_DELAY = 2"

text \<open>
  An ad is a dictionary from strings to strings (\<open>id\<close>, \<open>path\<close>, \<open>type\<close>, \<open>name\<close>,
  \<open>description\<close>, and \<open>gender\<close>, \<open>timestamp\<close> once it is selected), kept in insertion
  order. \<open>dict_get d k v\<close> is \<open>d.get(k, v)\<close>.
\<close>

type_synonym ad = "(string \<times> string) list"

definition dict_get :: "('k \<times> 'v) list \<Rightarrow> 'k \<Rightarrow> 'v \<Rightarrow> 'v" where
  "dict_get d k dflt = (case map_of d k of None \<Rightarrow> dflt | Some v \<Rightarrow> v)"

text \<open>
  A document of the analytics collection and of \<open>local_analytics\<close>. The keys that
  \<open>get_ad_analytics\<close> reads with a default (\<open>ad_id\<close>, \<open>gender\<close>, \<open>display_count\<close>) may
  be missing; both writers store an integer count.
\<close>

record ad_stat =
  ad_id :: "string option"
  ad_name :: string
  ad_path :: string
  ad_type :: string
  ad_gender :: "string option"
  display_count :: "int option"
  last_displayed :: string
  created_at :: string

text \<open>
  The manager. \<open>mongo_db\<close> is \<open>None\<close> or the documents of the collection
  \<open>ad_analytics\<close>; \<open>last_ad_change_time\<close> is a dictionary from gender to time; an entry
  of \<open>ad_history\<close> is the pair of its \<open>ad\<close> and \<open>timestamp\<close>. Times are the values of
  \<open>time.time()\<close>.
\<close>

record ad_manager =
  current_ad :: "ad option"
  ad_start_time :: "real option"
  last_majority_gender :: "string option"
  last_ad_change_time :: "string \<rightharpoonup> real"
  ad_history :: "(ad \<times> string) list"
  mongo_db :: "ad_stat list option"
  local_analytics :: "(string \<times> ad_stat) list"
  demo_male_ads :: "ad list"
  demo_female_ads :: "ad list"
  demo_neutral_ads :: "ad list"
  male_ads :: "ad list"
  female_ads :: "ad list"
  neutral_ads :: "ad list"

definition the_demo_male_ads :: "ad list" where
  "the_demo_male_ads =
     [[(''id'', ''MALE_001''),
       (''path'', ''https://images.unsplash.com/photo-1542291026-7eec264c27ff?w=800''),
       (''type'', ''image''),
       (''name'', ''Men's Premium Shoes Collection''),
       (''description'', ''Sports shoes, formal shoes, sneakers - Up to 50% OFF'')],
      [(''id'', ''MALE_002''),
       (''path'', ''https://images.unsplash.com/photo-1521572163474-6864f9cf17ab?w=800''),
       (''type'', ''image''),
       (''name'', ''Men's Fashion Pants & Jeans''),
       (''description'', ''Denim, chinos, formal trousers - Latest styles'')],
      [(''id'', ''MALE_003''),
       (''path'', ''https://images.unsplash.com/photo-1523381294911-8d3cead13475?ixlib=rb-4.1.0&ixid=M3wxMjA3fDB8MHxzZWFyY2h8OHx8TWVuJTVDJ3MlMjBTaGlydHMlMjAlMjYlMjBULVNoaXJ0c3xlbnwwfHwwfHx8MA%3D%3D&fm=jpg&q=60&w=3000''),
       (''type'', ''image''),
       (''name'', ''Men's Shirts & T-Shirts''),
       (''description'', ''Casual shirts, formal shirts, polo tees - All sizes available'')],
      [(''id'', ''MALE_004''),
       (''path'', ''https://images.unsplash.com/photo-1523275335684-37898b6baf30?w=800''),
       (''type'', ''image''),
       (''name'', ''Men's Watches & Accessories''),
       (''description'', ''Premium watches, belts, wallets - Luxury collection'')]]"

definition the_demo_female_ads :: "ad list" where
  "the_demo_female_ads =
     [[(''id'', ''FEMALE_001''),
       (''path'', ''https://images.unsplash.com/photo-1548036328-c9fa89d128fa?w=800''),
       (''type'', ''image''),
       (''name'', ''Women's Handbags & Purses''),
       (''description'', ''Designer bags, clutches, totes - Fashion collection'')],
      [(''id'', ''FEMALE_002''),
       (''path'', ''https://images.unsplash.com/photo-1515562141207-7a88fb7ce338?w=800''),
       (''type'', ''image''),
       (''name'', ''Women's Jewelry Collection''),
       (''description'', ''Necklaces, earrings, bracelets - Elegant pieces'')],
      [(''id'', ''FEMALE_003''),
       (''path'', ''https://images.unsplash.com/photo-1543163521-1bf539c55dd2?w=800''),
       (''type'', ''image''),
       (''name'', ''Women's Footwear''),
       (''description'', ''Heels, flats, sandals, boots - Latest trends'')],
      [(''id'', ''FEMALE_004''),
       (''path'', ''https://images.unsplash.com/photo-1596462502278-27bfdc403348?w=800''),
       (''type'', ''image''),
       (''name'', ''Beauty & Cosmetics''),
       (''description'', ''Makeup, skincare, perfumes - Premium brands'')],
      [(''id'', ''FEMALE_005''),
       (''path'', ''https://images.unsplash.com/photo-1594633312681-425c7b97ccd1?w=800''),
       (''type'', ''image''),
       (''name'', ''Women's Fashion Accessories''),
       (''description'', ''Scarves, sunglasses, fashion jewelry - Complete collection'')]]"

definition the_demo_neutral_ads :: "ad list" where
  "the_demo_neutral_ads =
     [[(''id'', ''NEUTRAL_001''),
       (''path'', ''https://images.unsplash.com/photo-1557683316-973673baf926?w=800''),
       (''type'', ''image''),
       (''name'', ''Mall Special Promotions''),
       (''description'', ''Weekend sales, special discounts - Shop now!'')],
      [(''id'', ''NEUTRAL_002''),
       (''path'', ''https://images.unsplash.com/photo-1441986300917-64674bd600d8?w=800''),
       (''type'', ''image''),
       (''name'', ''Food Court Offers''),
       (''description'', ''Special meals, discounts on dining - Visit now!'')]]"

text \<open>
  \<open>__init__\<close>. The arguments are the database handle after the connection check and the
  three lists that \<open>_load_ads\<close> read from the ads directory (empty when the directory or
  a sub-directory is missing, or when loading failed).
\<close>

definition AdManager :: "ad_stat list option \<Rightarrow> ad list \<Rightarrow> ad list \<Rightarrow> ad list \<Rightarrow> ad_manager" where
  "AdManager db loaded_male loaded_female loaded_neutral =
     \<lparr>current_ad = None, ad_start_time = None, last_majority_gender = None,
      last_ad_change_time = Map.empty, ad_history = [],
      mongo_db = db, local_analytics = [],
      demo_male_ads = the_demo_male_ads,
      demo_female_ads = the_demo_female_ads,
      demo_neutral_ads = the_demo_neutral_ads,
      male_ads = (if loaded_male = [] then the_demo_male_ads else loaded_male),
      female_ads = (if loaded_female = [] then the_demo_female_ads else loaded_female),
      neutral_ads = (if loaded_neutral = [] then the_demo_neutral_ads else loaded_neutral)\<rparr>"

subsection \<open>The trigger decision\<close>

text \<open>
  The second component of the result of \<open>should_show_ad\<close>: \<open>None\<close>, a gender, or the
  current ad.
\<close>

datatype target = NoTarget | TargetGender string | TargetAd ad

text \<open>
  Truth values of \<open>self.current_ad\<close> (a dictionary or \<open>None\<close>) and of
  \<open>self.ad_start_time\<close> (a float or \<open>None\<close>) in a condition.
\<close>

definition truthy_ad :: "ad option \<Rightarrow> bool" where
  "truthy_ad a = (case a of None \<Rightarrow> False | Some d \<Rightarrow> d \<noteq> [])"

definition truthy_time :: "real option \<Rightarrow> bool" where
  "truthy_time t = (case t of None \<Rightarrow> False | Some x \<Rightarrow> x \<noteq> 0)"

text \<open>
  \<open>should_show_ad(gender, counts)\<close> with the argument \<open>gender\<close> written \<open>g\<close>, at the
  clock value \<open>current_time\<close>. It returns its result and the manager it leaves behind.
\<close>

definition should_show_ad ::
  "ad_manager \<Rightarrow> string \<Rightarrow> (string \<rightharpoonup> nat) \<Rightarrow> real \<Rightarrow> (bool \<times> target) \<times> ad_manager" where
  "should_show_ad s g counts current_time =
     (let total = (case counts ''total'' of None \<Rightarrow> 0 | Some n \<Rightarrow> n) in
      if total = 0 then ((False, NoTarget), s)
      else if truthy_ad (current_ad s) \<and> truthy_time (ad_start_time s)
              \<and> current_time - the (ad_start_time s) < AD_DISPLAY_DURATION then
        (if Some g \<noteq> last_majority_gender s then ((True, TargetGender g), s)
         else ((False, (case current_ad s of Some a \<Rightarrow> TargetAd a | None \<Rightarrow> NoTarget)), s))
      else
        (case last_ad_change_time s g of
           Some t \<Rightarrow>
             (if current_time - t < AD_TRIGGER_DELAY then ((False, NoTarget), s)
              else ((True, TargetGender g), s))
         | None \<Rightarrow> ((True, TargetGender g), s)))"

text \<open>\<open>get_current_ad\<close> at the clock value \<open>now\<close>, and \<open>clear_ad\<close>.\<close>

definition get_current_ad :: "ad_manager \<Rightarrow> real \<Rightarrow> ad option \<times> ad_manager" where
  "get_current_ad s now =
     (if truthy_ad (current_ad s) \<and> truthy_time (ad_start_time s) then
        (if now - the (ad_start_time s) < AD_DISPLAY_DURATION then (current_ad s, s)
         else (None, s\<lparr>current_ad := None, ad_start_time := None\<rparr>))
      else (current_ad s, s))"

definition clear_ad :: "ad_manager \<Rightarrow> ad_manager" where
  "clear_ad s = s\<lparr>current_ad := None, ad_start_time := None\<rparr>"

subsection \<open>Selection and display tracking\<close>

text \<open>
  \<open>str.upper\<close>, \<open>str.lower\<close> on the ASCII letters (other characters are left as they
  are), \<open>replace(' ', '_')\<close> and \<open>replace("'", '')\<close>.
\<close>

definition upper_char :: "char \<Rightarrow> char" where
  "upper_char c =
     (let n = (of_char c :: nat) in if 97 \<le> n \<and> n \<le> 122 then char_of (n - 32) else c)"

definition lower_char :: "char \<Rightarrow> char" where
  "lower_char c =
     (let n = (of_char c :: nat) in if 65 \<le> n \<and> n \<le> 90 then char_of (n + 32) else c)"

definition upper :: "string \<Rightarrow> string" where
  "upper str = map upper_char str"

definition lower :: "string \<Rightarrow> string" where
  "lower str = map lower_char str"

definition ad_name_clean :: "ad \<Rightarrow> string" where
  "ad_name_clean selected =
     upper (filter (\<lambda>c. c \<noteq> CHR 0x27)
              (map (\<lambda>c. if c = CHR '' '' then CHR ''_'' else c)
                 (dict_get selected ''name'' ''UNKNOWN'')))"

datatype error = IndexError | StoreError

text \<open>
  What one call of \<open>select_ad\<close> reads from outside: the index drawn by
  \<open>random.choice\<close>, the string \<open>datetime.now().isoformat()\<close>, the two values of
  \<open>time.time()\<close> stored in \<open>ad_start_time\<close> and \<open>last_ad_change_time\<close>, and whether the
  call to the store raises.
\<close>

record select_env =
  choice :: nat
  iso_now :: string
  start_time :: real
  change_time :: real
  store_fails :: bool

definition count_of :: "ad_stat \<Rightarrow> int" where
  "count_of d = (case display_count d of None \<Rightarrow> 0 | Some n \<Rightarrow> n)"

text \<open>
  \<open>ad_analytics.update_one({'ad_id': ad_id}, {'$inc': ..., '$set': ..., '$setOnInsert': ...},
  upsert=True)\<close> on the documents of the collection: the first document with this
  \<open>ad_id\<close> is updated, and a new one is inserted when there is none.
\<close>

fun update_one :: "ad_stat list \<Rightarrow> string \<Rightarrow> ad \<Rightarrow> string \<Rightarrow> string \<Rightarrow> ad_stat list" where
  "update_one [] i a g stamp =
     [\<lparr>ad_id = Some i, ad_name = dict_get a ''name'' ''Unknown'',
       ad_path = dict_get a ''path'' '''', ad_type = dict_get a ''type'' ''image'',
       ad_gender = Some g, display_count = Some 1, last_displayed = stamp, created_at = stamp\<rparr>]"
| "update_one (d # ds) i a g stamp =
     (if ad_id d = Some i then
        d\<lparr>display_count := Some (count_of d + 1),
          ad_name := dict_get a ''name'' ''Unknown'',
          ad_path := dict_get a ''path'' '''', ad_type := dict_get a ''type'' ''image'',
          ad_gender := Some g, last_displayed := stamp\<rparr> # ds
      else d # update_one ds i a g stamp)"

definition mongo_update_one ::
  "select_env \<Rightarrow> ad_stat list \<Rightarrow> string \<Rightarrow> ad \<Rightarrow> string \<Rightarrow> error + ad_stat list" where
  "mongo_update_one env docs i a g =
     (if store_fails env then Inl StoreError else Inr (update_one docs i a g (iso_now env)))"

text \<open>The fallback of \<open>_track_ad_display\<close>: the count in \<open>local_analytics\<close>.\<close>

definition track_local :: "ad_manager \<Rightarrow> ad \<Rightarrow> string \<Rightarrow> string \<Rightarrow> string \<Rightarrow> ad_manager" where
  "track_local s a i g stamp =
     (let la = (if map_of (local_analytics s) i = None then
                  AList.update i
                    \<lparr>ad_id = Some i, ad_name = dict_get a ''name'' ''Unknown'',
                     ad_path = dict_get a ''path'' '''', ad_type = dict_get a ''type'' ''image'',
                     ad_gender = Some g, display_count = Some 0,
                     last_displayed = stamp, created_at = stamp\<rparr> (local_analytics s)
                else local_analytics s);
          la' = (case map_of la i of
                   Some d \<Rightarrow> AList.update i (d\<lparr>display_count := Some (count_of d + 1),
                                               last_displayed := stamp\<rparr>) la
                 | None \<Rightarrow> la)
      in s\<lparr>local_analytics := la'\<rparr>)"

text \<open>
  \<open>_track_ad_display\<close>: the store first; when there is none, or when its call raises,
  the count in memory. The outer \<open>try\<close> catches every other exception, so the method
  always returns.
\<close>

definition track_ad_display :: "ad_manager \<Rightarrow> ad \<Rightarrow> select_env \<Rightarrow> ad_manager" where
  "track_ad_display s a env =
     (let i = dict_get a ''id'' ''UNKNOWN'';
          g = dict_get a ''gender'' ''neutral''
      in case mongo_db s of
           Some docs \<Rightarrow>
             (case mongo_update_one env docs i a g of
                Inr docs' \<Rightarrow> s\<lparr>mongo_db := Some docs'\<rparr>
              | Inl e \<Rightarrow> track_local s a i g (iso_now env))
         | None \<Rightarrow> track_local s a i g (iso_now env))"

text \<open>
  The list that \<open>select_ad\<close> draws from, with the function that stores a changed list
  back into the field it came from (the assignment \<open>selected['id'] = ...\<close> changes the
  entry of that list).
\<close>

definition pick_ads_list ::
  "ad_manager \<Rightarrow> string \<Rightarrow> ad list \<times> (ad list \<Rightarrow> ad_manager \<Rightarrow> ad_manager)" where
  "pick_ads_list s g =
     (let p = (if g = ''male'' then
                 (if male_ads s \<noteq> [] then (male_ads s, \<lambda>l m. m\<lparr>male_ads := l\<rparr>)
                  else (demo_male_ads s, \<lambda>l m. m\<lparr>demo_male_ads := l\<rparr>))
               else if g = ''female'' then
                 (if female_ads s \<noteq> [] then (female_ads s, \<lambda>l m. m\<lparr>female_ads := l\<rparr>)
                  else (demo_female_ads s, \<lambda>l m. m\<lparr>demo_female_ads := l\<rparr>))
               else
                 (if neutral_ads s \<noteq> [] then (neutral_ads s, \<lambda>l m. m\<lparr>neutral_ads := l\<rparr>)
                  else (demo_neutral_ads s, \<lambda>l m. m\<lparr>demo_neutral_ads := l\<rparr>)))
      in if fst p = [] then (demo_neutral_ads s, \<lambda>l m. m\<lparr>demo_neutral_ads := l\<rparr>) else p)"

text \<open>
  \<open>select_ad(gender)\<close>, with the argument written \<open>g\<close>. \<open>random.choice\<close> raises
  IndexError on an empty list.
\<close>

definition select_ad :: "ad_manager \<Rightarrow> string \<Rightarrow> select_env \<Rightarrow> error + (ad \<times> ad_manager)" where
  "select_ad s g env =
     (case pick_ads_list s g of
        (ads_list, store_back) \<Rightarrow>
          if ads_list = [] then Inl IndexError
          else
            (let k = choice env mod length ads_list;
                 selected0 = ads_list ! k;
                 selected = (if map_of selected0 ''id'' = None then
                               AList.update ''id'' (upper g @ ''_'' @ ad_name_clean selected0) selected0
                             else selected0);
                 s1 = (if map_of selected0 ''id'' = None then store_back (ads_list[k := selected]) s
                       else s);
                 cur = AList.update ''timestamp'' (iso_now env) (AList.update ''gender'' g selected);
                 s2 = s1\<lparr>current_ad := Some cur,
                         ad_start_time := Some (start_time env),
                         last_ad_change_time := (last_ad_change_time s1)(g \<mapsto> change_time env),
                         last_majority_gender := Some g\<rparr>;
                 s3 = track_ad_display s2 cur env;
                 h = ad_history s3 @ [(cur, iso_now env)];
                 s4 = s3\<lparr>ad_history := (if length h > 100 then tl h else h)\<rparr>
             in Inr (cur, s4)))"

subsection \<open>Analytics read\<close>

text \<open>The two loops of \<open>get_ad_analytics\<close> that fill \<open>all_ads_dict\<close>.\<close>

definition add_mongo_ad :: "(string \<times> ad_stat) list \<Rightarrow> ad_stat \<Rightarrow> (string \<times> ad_stat) list" where
  "add_mongo_ad d a = AList.update (case ad_id a of None \<Rightarrow> ''UNKNOWN'' | Some i \<Rightarrow> i) a d"

fun add_local_ad :: "(string \<times> ad_stat) list \<Rightarrow> string \<times> ad_stat \<Rightarrow> (string \<times> ad_stat) list" where
  "add_local_ad d (i, ad_data) =
     (case map_of d i of
        Some a \<Rightarrow> AList.update i (a\<lparr>display_count := Some (max (count_of a) (count_of ad_data))\<rparr>) d
      | None \<Rightarrow> AList.update i ad_data d)"

definition all_ads_dict :: "ad_stat list \<Rightarrow> (string \<times> ad_stat) list \<Rightarrow> (string \<times> ad_stat) list" where
  "all_ads_dict mongo_ads la = foldl add_local_ad (foldl add_mongo_ad [] mongo_ads) la"

definition gender_is :: "string \<Rightarrow> ad_stat \<Rightarrow> bool" where
  "gender_is g a = (lower (case ad_gender a of None \<Rightarrow> '''' | Some x \<Rightarrow> x) = g)"

text \<open>\<open>sort(key=display_count, reverse=True)\<close>: descending and stable.\<close>

definition by_count :: "ad_stat list \<Rightarrow> ad_stat list" where
  "by_count xs = sort_key (\<lambda>a. - count_of a) xs"

definition ensure_count :: "ad_stat \<Rightarrow> ad_stat" where
  "ensure_count a = (if display_count a = None then a\<lparr>display_count := Some 0\<rparr> else a)"

record analytics_report =
  rep_male_ads :: "ad_stat list"
  rep_female_ads :: "ad_stat list"
  rep_neutral_ads :: "ad_stat list"
  total_displays :: int
  male_total :: int
  female_total :: int
  most_displayed :: "ad_stat list"

text \<open>
  What one call of \<open>get_ad_analytics\<close> reads from outside: \<open>handle_truth\<close> is the result
  of the truth test \<open>bool(self.mongo_db)\<close> on a handle that is not \<open>None\<close>, written
  \<open>None\<close> when the test raises, and \<open>find_fails\<close> says whether \<open>ad_analytics.find()\<close>
  raises.
\<close>

record read_env =
  handle_truth :: "bool option"
  find_fails :: bool

text \<open>
  The handle that \<open>app.py\<close> passes to \<open>AdManager\<close> is \<open>mongo.db\<close>, a \<open>Database\<close> of
  pymongo. A \<open>Database\<close> does not implement the truth test: \<open>bool\<close> of it raises
  NotImplementedError (the driver asks for a comparison with \<open>None\<close> instead).
\<close>

definition database_env :: "bool \<Rightarrow> read_env" where
  "database_env f = \<lparr>handle_truth = None, find_fails = f\<rparr>"

text \<open>
  The test \<open>if self.mongo_db:\<close> of \<open>get_ad_analytics\<close>: \<open>None\<close> is false, and a handle
  answers for itself. (\<open>__init__\<close> and \<open>_track_ad_display\<close> test \<open>is not None\<close>.)
\<close>

definition truth_test :: "ad_stat list option \<Rightarrow> read_env \<Rightarrow> bool option" where
  "truth_test db env = (case db of None \<Rightarrow> Some False | Some docs \<Rightarrow> handle_truth env)"

text \<open>The report of the outer \<open>except\<close> of \<open>get_ad_analytics\<close>.\<close>

definition empty_report :: analytics_report where
  "empty_report =
     \<lparr>rep_male_ads = [], rep_female_ads = [], rep_neutral_ads = [],
      total_displays = 0, male_total = 0, female_total = 0, most_displayed = []\<rparr>"

text \<open>
  \<open>get_ad_analytics\<close> from the merge on, for the documents \<open>mongo_ads\<close> that were read and
  the dictionary \<open>local_analytics\<close>. The counts of the documents and of the mirror are
  integers, and a key that a document lacks is read with its default, so nothing raises
  here.
\<close>

definition merged_report :: "ad_stat list \<Rightarrow> (string \<times> ad_stat) list \<Rightarrow> analytics_report" where
  "merged_report mongo_ads la =
     (let all_ads_list = map snd (all_ads_dict mongo_ads la);
          m_ads = by_count (filter (gender_is ''male'') all_ads_list);
          f_ads = by_count (filter (gender_is ''female'') all_ads_list);
          n_ads = by_count (filter (gender_is ''neutral'') all_ads_list)
      in \<lparr>rep_male_ads = map ensure_count m_ads,
          rep_female_ads = map ensure_count f_ads,
          rep_neutral_ads = map ensure_count n_ads,
          total_displays = sum_list (map count_of all_ads_list),
          male_total = sum_list (map count_of m_ads),
          female_total = sum_list (map count_of f_ads),
          most_displayed = map ensure_count (take 10 (by_count all_ads_list))\<rparr>)"

text \<open>
  \<open>get_ad_analytics\<close>. A truth test that raises is caught by the outer \<open>except\<close>, which
  returns the empty report. Otherwise \<open>mongo_ads\<close> is the result of \<open>find()\<close> when the
  test is true and \<open>find()\<close> returns, and the empty list when the test is false or
  \<open>find()\<close> raises (the inner \<open>except\<close>).
\<close>

definition get_ad_analytics :: "ad_manager \<Rightarrow> read_env \<Rightarrow> analytics_report" where
  "get_ad_analytics s env =
     (case truth_test (mongo_db s) env of
        None \<Rightarrow> empty_report
      | Some b \<Rightarrow>
          (let mongo_ads = (if b then
                              (if find_fails env then []
                               else (case mongo_db s of Some docs \<Rightarrow> docs | None \<Rightarrow> []))
                            else [])
           in merged_report mongo_ads (local_analytics s)))"

subsection \<open>Runs of the manager\<close>

text \<open>
  The public operations that touch the trigger state, and the manager after a sequence of
  them, starting from \<open>__init__\<close>. A call of \<open>select_ad\<close> that raises leaves the manager
  as it was (the exception comes from \<open>random.choice\<close>, before any assignment).
\<close>

datatype ad_op =
    ShouldShow string "string \<rightharpoonup> nat" real
  | Select string select_env
  | GetCurrent real
  | Clear

fun ad_step :: "ad_manager \<Rightarrow> ad_op \<Rightarrow> ad_manager" where
  "ad_step s (ShouldShow g counts now) = snd (should_show_ad s g counts now)"
| "ad_step s (Select g env) = (case select_ad s g env of Inr (a, s') \<Rightarrow> s' | Inl e \<Rightarrow> s)"
| "ad_step s (GetCurrent now) = snd (get_current_ad s now)"
| "ad_step s Clear = clear_ad s"

definition ad_run :: "ad_manager \<Rightarrow> ad_op list \<Rightarrow> ad_manager" where
  "ad_run s ops = foldl ad_step s ops"

text \<open>
  The clock of a run: \<open>time.time()\<close> never returns 0 (the epoch itself), the one float
  that counts as false in \<open>if self.current_ad and self.ad_start_time\<close>.
\<close>

fun clock_ok :: "ad_op \<Rightarrow> bool" where
  "clock_ok (Select g env) = (start_time env \<noteq> 0)"
| "clock_ok _ = True"

text \<open>
  An inventory as \<open>_load_ads\<close> builds it: every ad has an \<open>id\<close>, which is not empty (it
  is the directory name, an underscore and the file name).
\<close>

definition ids_ok :: "ad list \<Rightarrow> bool" where
  "ids_ok ads = list_all (\<lambda>a. map_of a ''id'' \<noteq> Some []) ads"

text \<open>
  What holds of the manager during a run: an ad and its start time are set and cleared
  together, and the catalogs keep non-empty ids.
\<close>

definition catalogs_ok :: "ad_manager \<Rightarrow> bool" where
  "catalogs_ok s =
     (demo_neutral_ads s \<noteq> [] \<and> ids_ok (demo_neutral_ads s) \<and> ids_ok (demo_male_ads s)
      \<and> ids_ok (demo_female_ads s) \<and> ids_ok (male_ads s) \<and> ids_ok (female_ads s)
      \<and> ids_ok (neutral_ads s))"

definition showing_ok :: "ad_manager \<Rightarrow> bool" where
  "showing_ok s =
     ((current_ad s = None) = (ad_start_time s = None)
      \<and> current_ad s \<noteq> Some [] \<and> ad_start_time s \<noteq> Some 0)"

text \<open>
  The decision in the words of the specification, with the durations written out:
  no decision without people; while an ad is showing and less than 15 seconds have
  passed, no change for the same majority and an immediate switch for another one;
  otherwise a trigger unless this gender was triggered less than 2 seconds ago.
\<close>

definition spec_cooldown :: "ad_manager \<Rightarrow> string \<Rightarrow> real \<Rightarrow> bool \<times> target" where
  "spec_cooldown s g now =
     (case last_ad_change_time s g of
        Some t \<Rightarrow> (if now - t < 2 then (False, NoTarget) else (True, TargetGender g))
      | None \<Rightarrow> (True, TargetGender g))"

definition spec_decide :: "ad_manager \<Rightarrow> string \<Rightarrow> (string \<rightharpoonup> nat) \<Rightarrow> real \<Rightarrow> bool \<times> target" where
  "spec_decide s g counts now =
     (if counts ''total'' = None \<or> counts ''total'' = Some 0 then (False, NoTarget)
      else case (current_ad s, ad_start_time s) of
             (Some a, Some t0) \<Rightarrow>
               (if now - t0 < 15 then
                  (if last_majority_gender s = Some g then (False, TargetAd a)
                   else (True, TargetGender g))
                else spec_cooldown s g now)
           | _ \<Rightarrow> spec_cooldown s g now)"

text \<open>The six places a drawn list can come from, each with its way back.\<close>

definition setters ::
  "(ad_manager \<Rightarrow> ad list) \<Rightarrow> (ad list \<Rightarrow> ad_manager \<Rightarrow> ad_manager) \<Rightarrow> bool" where
  "setters sel sb =
     ((sel = male_ads \<and> sb = (\<lambda>l m. m\<lparr>male_ads := l\<rparr>))
      \<or> (sel = demo_male_ads \<and> sb = (\<lambda>l m. m\<lparr>demo_male_ads := l\<rparr>))
      \<or> (sel = female_ads \<and> sb = (\<lambda>l m. m\<lparr>female_ads := l\<rparr>))
      \<or> (sel = demo_female_ads \<and> sb = (\<lambda>l m. m\<lparr>demo_female_ads := l\<rparr>))
      \<or> (sel = neutral_ads \<and> sb = (\<lambda>l m. m\<lparr>neutral_ads := l\<rparr>))
      \<or> (sel = demo_neutral_ads \<and> sb = (\<lambda>l m. m\<lparr>demo_neutral_ads := l\<rparr>)))"

text \<open>
  The ad that \<open>select_ad\<close> builds from the drawn entry: the entry with an \<open>id\<close>, then the
  keys \<open>gender\<close> and \<open>timestamp\<close>.
\<close>

definition with_id :: "string \<Rightarrow> ad \<Rightarrow> ad" where
  "with_id g a =
     (if map_of a ''id'' = None then AList.update ''id'' (upper g @ ''_'' @ ad_name_clean a) a
      else a)"

definition stamped :: "string \<Rightarrow> select_env \<Rightarrow> ad \<Rightarrow> ad" where
  "stamped g env a =
     AList.update ''timestamp'' (iso_now env) (AList.update ''gender'' g (with_id g a))"

text \<open>
  The fallback chain in the words of the specification: the local inventory of the
  gender, then the demo catalog of the gender, then the neutral demo catalog.
\<close>

definition fallback_chain :: "ad_manager \<Rightarrow> string \<Rightarrow> ad list" where
  "fallback_chain s g =
     (let inventory = (if g = ''male'' then male_ads s
                       else if g = ''female'' then female_ads s else neutral_ads s);
          demo = (if g = ''male'' then demo_male_ads s
                  else if g = ''female'' then demo_female_ads s else demo_neutral_ads s)
      in if inventory \<noteq> [] then inventory
         else if demo \<noteq> [] then demo
         else demo_neutral_ads s)"

text \<open>An environment of \<open>select_ad\<close> whose clock reads \<open>t\<close>.\<close>

definition env_at :: "real \<Rightarrow> select_env" where
  "env_at t = \<lparr>choice = 0, iso_now = ''2026-01-01T00:00:00'', start_time = t, change_time = t, store_fails = False\<rparr>"



text \<open>
  A manager whose local inventory and demo catalog for \<open>male\<close> are both empty.
\<close>

definition depleted :: ad_manager where
  "depleted = (AdManager (Some []) [] [] [])\<lparr>male_ads := [], demo_male_ads := []\<rparr>"


subsection \<open>The merge of the two analytics stores\<close>

text \<open>
  The key under which \<open>get_ad_analytics\<close> files a document of the store, the document
  that the store holds for a key (the last one, when several carry the same key), and the
  merge in the words of the specification: the larger of the two counts when both stores
  know the ad, and the entry of the one store that knows it otherwise.
\<close>

definition doc_key :: "ad_stat \<Rightarrow> string" where
  "doc_key a = (case ad_id a of None \<Rightarrow> ''UNKNOWN'' | Some i \<Rightarrow> i)"

definition persisted :: "ad_stat list \<Rightarrow> string \<Rightarrow> ad_stat option" where
  "persisted mongo_ads k = find (\<lambda>a. doc_key a = k) (rev mongo_ads)"

definition spec_merge :: "ad_stat option \<Rightarrow> ad_stat option \<Rightarrow> ad_stat option" where
  "spec_merge p m =
     (case (p, m) of
        (Some a, Some b) \<Rightarrow> Some (a\<lparr>display_count := Some (max (count_of a) (count_of b))\<rparr>)
      | (Some a, None) \<Rightarrow> Some a
      | (None, Some b) \<Rightarrow> Some b
      | (None, None) \<Rightarrow> None)"

text \<open>
  A report presents a merged dictionary: each of its three lists holds the entries of its
  gender (with a missing count shown as 0), and the total is the sum of the counts.
\<close>

definition presents :: "analytics_report \<Rightarrow> (string \<times> ad_stat) list \<Rightarrow> bool" where
  "presents r d =
     (set (rep_male_ads r) = ensure_count ` {a \<in> snd ` set d. gender_is ''male'' a}
      \<and> set (rep_female_ads r) = ensure_count ` {a \<in> snd ` set d. gender_is ''female'' a}
      \<and> set (rep_neutral_ads r) = ensure_count ` {a \<in> snd ` set d. gender_is ''neutral'' a}
      \<and> total_displays r = sum_list (map (\<lambda>p. count_of (snd p)) d))"

text \<open>
  The store with count 3 and the mirror with count 5 for the same ad, and the store with
  count 7 and the mirror with count 5.
\<close>

definition stat_A :: "int \<Rightarrow> ad_stat" where
  "stat_A n =
     \<lparr>ad_id = Some ''MALE_001'', ad_name = ''Men's Premium Shoes Collection'',
      ad_path = ''https://images.unsplash.com/photo-1542291026-7eec264c27ff?w=800'',
      ad_type = ''image'', ad_gender = Some ''male'', display_count = Some n,
      last_displayed = ''2026-01-01T00:00:00'', created_at = ''2026-01-01T00:00:00''\<rparr>"

definition three_and_five :: ad_manager where
  "three_and_five =
     (AdManager (Some [stat_A 3]) [] [] [])\<lparr>local_analytics := [(''MALE_001'', stat_A 5)]\<rparr>"

definition seven_and_five :: ad_manager where
  "seven_and_five =
     (AdManager (Some [stat_A 7]) [] [] [])\<lparr>local_analytics := [(''MALE_001'', stat_A 5)]\<rparr>"

section \<open>Tracker: notions used in the statements\<close>

definition keys :: "tracker \<Rightarrow> nat set" where
  "keys s = fst ` set (objects s)"

text \<open>A track as \<open>register\<close> creates it from the observation \<open>r\<close>.\<close>

definition new_track :: "rect \<Rightarrow> track" where
  "new_track r =
     \<lparr>bbox = bbox r, gender = gender r, confidence = confidence r, centroid = input_centroid r,
      gender_history = [gender r], hits = 1, disappeared = 0\<rparr>"

text \<open>A track that was not matched in a frame and stays.\<close>

definition aged :: "track \<Rightarrow> track" where
  "aged t = t\<lparr>disappeared := disappeared t + 1\<rparr>"

subsection \<open>The mode of a history\<close>

text \<open>
  A label is a mode of a history when no label occurs more often. \<open>mode_first\<close> is the
  mode that occurs first in the history.
\<close>

definition is_mode :: "'a list \<Rightarrow> 'a \<Rightarrow> bool" where
  "is_mode h x = list_all (\<lambda>y. count_list h y \<le> count_list h x) h"

definition mode_first :: "'a list \<Rightarrow> 'a option" where
  "mode_first h = find (is_mode h) h"

text \<open>
  The tie-break in the words of the specification: the label that is first to reach the
  maximal count, reading the history from its oldest entry.
\<close>

fun first_to_reach :: "nat \<Rightarrow> 'a list \<Rightarrow> 'a list \<Rightarrow> 'a option" where
  "first_to_reach m seen [] = None"
| "first_to_reach m seen (x # xs) =
     (if count_list (x # seen) x = m then Some x else first_to_reach m (x # seen) xs)"

definition spec_mode :: "'a list \<Rightarrow> 'a option" where
  "spec_mode h = first_to_reach (foldr max (map (count_list h) h) 0) [] h"

subsection \<open>Invariant of the tracker\<close>

definition track_ok :: "nat \<Rightarrow> track \<Rightarrow> bool" where
  "track_ok md t =
     (disappeared t \<le> md \<and> length (gender_history t) \<le> 20
      \<and> most_common (gender_history t) = Some (gender t))"

definition tracker_ok :: "tracker \<Rightarrow> bool" where
  "tracker_ok s =
     (distinct (map fst (objects s))
      \<and> list_all (\<lambda>p. fst p < next_object_id s \<and> track_ok (max_disappeared s) (snd p)) (objects s))"

text \<open>
  What every step of the tracker keeps: the two bounds, and the ids, which either were
  there before or are new numbers from the counter.
\<close>

definition step_ok :: "tracker \<Rightarrow> tracker \<Rightarrow> bool" where
  "step_ok s s' =
     (max_disappeared s' = max_disappeared s \<and> max_distance s' = max_distance s
      \<and> next_object_id s \<le> next_object_id s'
      \<and> keys s' \<subseteq> keys s \<union> {next_object_id s ..< next_object_id s'})"

subsection \<open>Data association\<close>

text \<open>
  The pairs (row of an existing track, column of an observation) that the matching loop
  of \<open>update\<close> accepts, in the order of acceptance.
\<close>

definition association :: "runtime \<Rightarrow> tracker \<Rightarrow> rect list \<Rightarrow> (nat \<times> nat) list" where
  "association rt s rects =
     (case match_loop rt s rects of (s1, used_rows, used_cols) \<Rightarrow> rev (zip used_rows used_cols))"

text \<open>The distance matrix of a call, as \<open>update\<close> computes it.\<close>

definition distances :: "tracker \<Rightarrow> rect list \<Rightarrow> int list list" where
  "distances s rects =
     dist_sq (map (\<lambda>p. centroid (snd p)) (objects s)) (map input_centroid rects)"

text \<open>
  The greedy pass in the words of the specification: the pairs are processed in order,
  and a pair is accepted exactly when neither its track nor its observation is already
  matched and the distance is at most \<open>maxDistance\<close>.
\<close>

definition near_enough :: "int list list \<Rightarrow> nat \<Rightarrow> nat \<times> nat \<Rightarrow> bool" where
  "near_enough D maxd p = (D ! fst p ! snd p \<le> int (maxd * maxd))"

definition greedy_accept ::
  "int list list \<Rightarrow> nat \<Rightarrow> (nat \<times> nat) list \<Rightarrow> nat \<times> nat \<Rightarrow> (nat \<times> nat) list" where
  "greedy_accept D maxd acc p =
     (if fst p \<notin> set (map fst acc) \<and> snd p \<notin> set (map snd acc) \<and> near_enough D maxd p
      then acc @ [p] else acc)"

definition greedy :: "int list list \<Rightarrow> nat \<Rightarrow> (nat \<times> nat) list \<Rightarrow> (nat \<times> nat) list" where
  "greedy D maxd pairs = foldl (greedy_accept D maxd) [] pairs"

definition by_distance :: "int list list \<Rightarrow> (nat \<times> nat) list \<Rightarrow> (nat \<times> nat) list" where
  "by_distance D pairs = sort_key (\<lambda>p. D ! fst p ! snd p) pairs"

text \<open>The specification forms all pairs.\<close>

definition all_pairs :: "nat \<Rightarrow> nat \<Rightarrow> (nat \<times> nat) list" where
  "all_pairs n m = concat (map (\<lambda>r. map (\<lambda>c. (r, c)) [0..<m]) [0..<n])"

definition spec_association :: "tracker \<Rightarrow> rect list \<Rightarrow> (nat \<times> nat) list" where
  "spec_association s rects =
     greedy (distances s rects) (max_distance s)
       (by_distance (distances s rects) (all_pairs (length (objects s)) (length rects)))"

text \<open>
  The amended pairs: each existing track with its nearest observation only (the one with
  the lowest index among equally near ones), and these pairs in the order in which the
  runtime sorts the tracks by that distance.
\<close>

definition nearest_pairs :: "int list list \<Rightarrow> (nat \<times> nat) list" where
  "nearest_pairs D = map (\<lambda>r. (r, argmin (D ! r))) [0..<length D]"

definition candidates :: "runtime \<Rightarrow> int list list \<Rightarrow> (nat \<times> nat) list" where
  "candidates rt D = map (\<lambda>r. (r, argmin (D ! r))) (argsort_impl rt (map min_list D))"

definition nearest_association :: "runtime \<Rightarrow> tracker \<Rightarrow> rect list \<Rightarrow> (nat \<times> nat) list" where
  "nearest_association rt s rects =
     greedy (distances s rects) (max_distance s) (candidates rt (distances s rects))"

subsection \<open>Example frames\<close>

text \<open>An observation with a 2 by 2 box at \<open>(x, 0)\<close>; its centroid is \<open>(x + 1, 1)\<close>.\<close>

definition obs :: "int \<Rightarrow> gender_label \<Rightarrow> rect" where
  "obs x g = \<lparr>bbox = (x, 0, 2, 2), gender = g, confidence = 1 / 2\<rparr>"

text \<open>What \<open>age\<close> does to one key.\<close>

definition age_result :: "nat \<Rightarrow> track option \<Rightarrow> track option" where
  "age_result md v =
     (case v of None \<Rightarrow> None
      | Some t \<Rightarrow> (if disappeared t + 1 > md then None else Some (aged t)))"



text \<open>
  The keys of a counter, in the order of first occurrence: a label is added at the end
  when it is not yet there.
\<close>

definition first_seen :: "'a list \<Rightarrow> 'a \<Rightarrow> 'a list" where
  "first_seen acc x = (if x \<in> set acc then acc else acc @ [x])"

definition count_step_of :: "('a \<times> nat) list \<Rightarrow> 'a \<Rightarrow> ('a \<times> nat) list" where
  "count_step_of c x = AList.update x (case map_of c x of None \<Rightarrow> 1 | Some n \<Rightarrow> n + 1) c"

text \<open>
  One person, seen in four frames at the same place with the labels Male, Female, Female,
  Male.
\<close>

definition vote_frames :: "rect list list" where
  "vote_frames = [[obs 0 Male], [obs 0 Female], [obs 0 Female], [obs 0 Male]]"

text \<open>
  A person without a recognised face in the first frame and labelled Male in the second;
  and a second person without a recognised face, far from the first one.
\<close>

definition unknown_first_frames :: "rect list list" where
  "unknown_first_frames = [[obs 0 Unknown], [obs 0 Male]]"

definition unknown_later_frames :: "rect list list" where
  "unknown_later_frames = [[obs 0 Male], [obs 1000 Unknown]]"

text \<open>The body of the matching loop for the accepted pair of a row and a column.\<close>

definition apply_pair :: "nat list \<Rightarrow> rect list \<Rightarrow> tracker \<Rightarrow> nat \<times> nat \<Rightarrow> tracker" where
  "apply_pair ids rects s p =
     update_matched s (ids ! fst p) (map input_centroid rects ! snd p) (rects ! snd p)"

text \<open>
  Two people in one frame, 10 pixels apart, and the next frame: one observation near both
  and one farther away, still within 150 pixels of the second person.
\<close>

definition pair_frames :: "rect list list" where
  "pair_frames = [[obs 0 Male, obs 10 Female]]"

definition pair_rects :: "rect list" where
  "pair_rects = [obs 3 Male, obs 60 Female]"


section \<open>Tracker: the invariant of a run\<close>

subsection \<open>Association lists as dictionaries\<close>

lemma update_fresh: "k \<notin> fst ` set al \<Longrightarrow> AList.update k v al = al @ [(k, v)]"
  by (induction al) auto

lemma list_all_update:
  "list_all P al \<Longrightarrow> P (k, v) \<Longrightarrow> list_all P (AList.update k v al)"
  by (induction al) auto

lemma list_all_delete: "list_all P al \<Longrightarrow> list_all P (AList.delete k al)"
  by (simp add: AList.delete_eq list_all_iff)

lemma keys_update_present:
  "k \<in> fst ` set al \<Longrightarrow> map fst (AList.update k v al) = map fst al"
  by (induction al) auto

lemma map_of_Some_key: "map_of al k = Some v \<Longrightarrow> k \<in> fst ` set al"
  by (force dest: map_of_SomeD)

subsection \<open>Majority vote\<close>

lemma Counter_Cons_nonempty: "foldl (\<lambda>c x. AList.update x (f c x) c) c0 xs \<noteq> []" if "c0 \<noteq> [] \<or> xs \<noteq> []"
  using that by (induction xs arbitrary: c0) auto

lemma most_common_nonempty: "h \<noteq> [] \<Longrightarrow> \<exists>g. most_common h = Some g"
proof -
  assume "h \<noteq> []"
  then have "Counter h \<noteq> []"
    unfolding Counter_def by (intro Counter_Cons_nonempty) simp
  then show ?thesis by (auto simp: most_common_def split: list.splits)
qed

lemma most_common_single: "most_common [g] = Some g"
  by (simp add: most_common_def Counter_def)

lemma push_history_length: "length h \<le> 20 \<Longrightarrow> length (push_history h g) \<le> 20"
  by (simp add: push_history_def Let_def)

lemma push_history_nonempty: "h \<noteq> [] \<Longrightarrow> push_history h g \<noteq> []"
  by (cases h) (auto simp: push_history_def Let_def)

lemma push_history_cases:
  "push_history h g = (if length h < 20 then h @ [g] else tl (h @ [g]))"
  by (simp add: push_history_def Let_def)

subsection \<open>The steps keep the invariant\<close>

lemma track_ok_new: "track_ok md \<lparr>bbox = b, gender = g, confidence = cf, centroid = c,
           gender_history = [g], hits = n, disappeared = 0\<rparr>"
  by (simp add: track_ok_def most_common_single)

lemma track_ok_nonempty: "track_ok md t \<Longrightarrow> gender_history t \<noteq> []"
  by (auto simp: track_ok_def most_common_def Counter_def)

lemma track_ok_matched: "track_ok md t \<Longrightarrow> track_ok md (matched t c r)"
proof -
  assume ok: "track_ok md t"
  then have ne: "gender_history t \<noteq> []" by (rule track_ok_nonempty)
  obtain g where g: "most_common (push_history (gender_history t) (gender r)) = Some g"
    using most_common_nonempty [OF push_history_nonempty [OF ne]] by blast
  show ?thesis
    using ok g by (simp add: matched_def track_ok_def Let_def push_history_length)
qed

lemma step_ok_refl: "step_ok s s"
  by (simp add: step_ok_def)

lemma step_ok_trans: "step_ok s s' \<Longrightarrow> step_ok s' s'' \<Longrightarrow> step_ok s s''"
  unfolding step_ok_def by (auto; fastforce)

lemma register_ok:
  assumes "tracker_ok s"
  shows "tracker_ok (register s c b g cf)" and "step_ok s (register s c b g cf)"
proof -
  have fresh: "next_object_id s \<notin> fst ` set (objects s)"
    using assms by (auto simp: tracker_ok_def list_all_iff)
  have up: "objects (register s c b g cf) = objects s @ [(next_object_id s,
       \<lparr>bbox = b, gender = g, confidence = cf, centroid = c,
           gender_history = [g], hits = 1, disappeared = 0\<rparr>)]"
    by (simp add: register_def update_fresh [OF fresh])
  show "tracker_ok (register s c b g cf)"
    using assms fresh unfolding tracker_ok_def up
    by (auto simp: register_def list_all_iff track_ok_new)
  show "step_ok s (register s c b g cf)"
    unfolding step_ok_def keys_def up by (auto simp: register_def)
qed

lemma update_matched_ok:
  assumes "tracker_ok s"
  shows "tracker_ok (update_matched s i c r)" and "step_ok s (update_matched s i c r)"
proof -
  show "tracker_ok (update_matched s i c r)"
  proof (cases "map_of (objects s) i")
    case None
    then show ?thesis using assms by (simp add: update_matched_def)
  next
    case (Some t)
    then have mem: "(i, t) \<in> set (objects s)" by (rule map_of_SomeD)
    then have "i < next_object_id s" "track_ok (max_disappeared s) t"
      using assms by (auto simp: tracker_ok_def list_all_iff)
    then show ?thesis
      using assms Some
      by (simp add: update_matched_def tracker_ok_def distinct_update list_all_update track_ok_matched)
  qed
  show "step_ok s (update_matched s i c r)"
    by (auto simp: update_matched_def step_ok_def keys_def dom_update dest: map_of_Some_key
        split: option.splits)
qed

lemma age_ok:
  assumes "tracker_ok s"
  shows "tracker_ok (age s i)" and "step_ok s (age s i)"
proof -
  show "tracker_ok (age s i)"
  proof (cases "map_of (objects s) i")
    case None
    then show ?thesis using assms by (simp add: age_def)
  next
    case (Some t)
    then have mem: "(i, t) \<in> set (objects s)" by (rule map_of_SomeD)
    then have "i < next_object_id s" "track_ok (max_disappeared s) t"
      using assms by (auto simp: tracker_ok_def list_all_iff)
    then show ?thesis
      using assms Some
      by (simp add: age_def deregister_def tracker_ok_def distinct_update distinct_delete
          list_all_update list_all_delete track_ok_def)
  qed
  show "step_ok s (age s i)"
    using dom_delete_subset [of i "objects s"]
    by (auto simp: age_def deregister_def step_ok_def keys_def dom_update dest: map_of_Some_key
        split: option.splits)
qed


lemma foldl_ok:
  assumes "\<And>s x. tracker_ok s \<Longrightarrow> tracker_ok (f s x) \<and> step_ok s (f s x)"
    and "tracker_ok s"
  shows "tracker_ok (foldl f s xs) \<and> step_ok s (foldl f s xs)"
  using assms(2)
proof (induction xs arbitrary: s)
  case Nil
  then show ?case by (simp add: step_ok_refl)
next
  case (Cons x xs)
  from assms(1) [OF Cons.prems] have a: "tracker_ok (f s x)" "step_ok s (f s x)" by auto
  from Cons.IH [OF a(1)] a(2) show ?case by (auto intro: step_ok_trans)
qed

lemma match_step_ok:
  assumes "tracker_ok (fst st)"
  shows "tracker_ok (fst (match_step D ids cen rects st p))
         \<and> step_ok (fst st) (fst (match_step D ids cen rects st p))"
proof -
  obtain s ur uc where st: "st = (s, ur, uc)" by (cases st)
  obtain row col where p: "p = (row, col)" by (cases p)
  show ?thesis
    using assms by (simp add: st p step_ok_refl update_matched_ok)
qed

lemma match_fold_ok:
  assumes "tracker_ok (fst st)"
  shows "tracker_ok (fst (foldl (match_step D ids cen rects) st ps))
         \<and> step_ok (fst st) (fst (foldl (match_step D ids cen rects) st ps))"
  using assms
proof (induction ps arbitrary: st)
  case Nil
  then show ?case by (simp add: step_ok_refl)
next
  case (Cons p ps)
  from match_step_ok [OF Cons.prems, of D ids cen rects p]
  have a: "tracker_ok (fst (match_step D ids cen rects st p))"
    "step_ok (fst st) (fst (match_step D ids cen rects st p))" by auto
  from Cons.IH [OF a(1)] a(2) show ?case by (auto intro: step_ok_trans)
qed

lemma match_loop_ok:
  assumes "tracker_ok s"
  shows "tracker_ok (fst (match_loop rt s rects)) \<and> step_ok s (fst (match_loop rt s rects))"
  unfolding match_loop_def Let_def
  using match_fold_ok [of "(s, [], [])"] assms by simp

lemma update_ok:
  assumes "tracker_ok s"
  shows "tracker_ok (update rt s rects) \<and> step_ok s (update rt s rects)"
proof (cases "length rects = 0")
  case True
  then show ?thesis
    using foldl_ok [of age s "map fst (objects s)"] assms
    by (simp add: update_def age_ok)
next
  case False
  note nonempty = this
  let ?reg = "\<lambda>s' i. register s' (map input_centroid rects ! i) (bbox (rects ! i))
                          (gender (rects ! i)) (confidence (rects ! i))"
  have reg: "tracker_ok (foldl ?reg s' cs) \<and> step_ok s' (foldl ?reg s' cs)"
    if "tracker_ok s'" for s' cs
    using that by (intro foldl_ok) (simp_all add: register_ok)
  show ?thesis
  proof (cases "length (objects s) = 0")
    case True
    then show ?thesis
      using nonempty reg [OF assms] by (simp add: update_def Let_def)
  next
    case False
    obtain s1 ur uc where m: "match_loop rt s rects = (s1, ur, uc)"
      by (cases "match_loop rt s rects")
    have s1: "tracker_ok s1" "step_ok s s1"
      using match_loop_ok [OF assms, of rt rects] m by auto
    let ?age = "\<lambda>s' row. age s' (map fst (objects s) ! row)"
    let ?rows = "set_iter rt (length (objects s))
                   (filter (\<lambda>r. r \<notin> set ur) [0..<length (objects s)])"
    have s2: "tracker_ok (foldl ?age s1 ?rows) \<and> step_ok s1 (foldl ?age s1 ?rows)"
      using s1(1) by (intro foldl_ok) (simp_all add: age_ok)
    let ?cols = "set_iter rt (length rects) (filter (\<lambda>c. c \<notin> set uc) [0..<length rects])"
    have s3: "tracker_ok (foldl ?reg (foldl ?age s1 ?rows) ?cols)
        \<and> step_ok (foldl ?age s1 ?rows) (foldl ?reg (foldl ?age s1 ?rows) ?cols)"
      using s2 by (intro reg) simp
    have "update rt s rects = foldl ?reg (foldl ?age s1 ?rows) ?cols"
      using nonempty False by (simp add: update_def Let_def m)
    then show ?thesis
      using s1 s2 s3 by (auto intro: step_ok_trans)
  qed
qed

lemma tracker_ok_init: "tracker_ok (EuclideanDistTracker md mdist)"
  by (simp add: tracker_ok_def EuclideanDistTracker_def)

lemma run_ok:
  assumes "tracker_ok s"
  shows "tracker_ok (run rt s frames) \<and> step_ok s (run rt s frames)"
  unfolding run_def using assms by (intro foldl_ok) (simp_all add: update_ok)



section \<open>Tracker: ids and ageing\<close>

lemma age_fields:
  "max_disappeared (age s i) = max_disappeared s"
  "max_distance (age s i) = max_distance s"
  "next_object_id (age s i) = next_object_id s"
  by (simp_all add: age_def deregister_def split: option.splits)

lemma map_of_age:
  "map_of (objects (age s i)) k =
     (if k = i then age_result (max_disappeared s) (map_of (objects s) i) else map_of (objects s) k)"
  by (simp add: age_def deregister_def age_result_def aged_def update_conv' delete_conv'
      split: option.splits)

lemma map_of_foldl_age:
  "distinct is \<Longrightarrow>
   map_of (objects (foldl age s is)) k =
     (if k \<in> set is then age_result (max_disappeared s) (map_of (objects s) k)
      else map_of (objects s) k)"
proof (induction "is" arbitrary: s)
  case Nil
  then show ?case by simp
next
  case (Cons i "is")
  then have d: "distinct is" and ni: "i \<notin> set is" by auto
  show ?case
    using ni by (auto simp: Cons.IH [OF d] map_of_age age_fields)
qed

lemma foldl_age_fields:
  "max_disappeared (foldl age s is) = max_disappeared s"
  "next_object_id (foldl age s is) = next_object_id s"
  by (induction "is" arbitrary: s) (simp_all add: age_fields)


lemma camera_tracker_fields:
  "max_disappeared (run rt camera_tracker frames) = 50"
  "max_distance (run rt camera_tracker frames) = 150"
proof -
  have "step_ok camera_tracker (run rt camera_tracker frames)"
    using run_ok [of camera_tracker] by (simp add: camera_tracker_def tracker_ok_init)
  then show "max_disappeared (run rt camera_tracker frames) = 50"
    "max_distance (run rt camera_tracker frames) = 150"
    by (simp_all add: step_ok_def camera_tracker_def EuclideanDistTracker_def)
qed

lemma camera_tracker_ok: "tracker_ok (run rt camera_tracker frames)"
  using run_ok [of camera_tracker] by (simp add: camera_tracker_def tracker_ok_init)



lemmas tracker_eval = reference_runtime_def update_def camera_tracker_def EuclideanDistTracker_def register_def
  match_loop_def input_centroid_def trunc_half_def dist_sq_def argsort_def argmin_def
  update_matched_def matched_def push_history_def most_common_def Counter_def Let_def
  age_def deregister_def obs_def






section \<open>Tracker: the majority vote\<close>

subsection \<open>The most common label is the first mode\<close>

lemma Counter_fold: "Counter xs = foldl count_step_of [] xs"
  unfolding Counter_def count_step_of_def [abs_def] ..

lemma keys_count_step: "map fst (count_step_of c x) = first_seen (map fst c) x"
  by (simp add: count_step_of_def first_seen_def update_keys)

lemma distinct_count_step: "distinct (map fst c) \<Longrightarrow> distinct (map fst (count_step_of c x))"
  by (simp add: count_step_of_def distinct_update)

lemma map_of_count_step:
  "map_of (count_step_of c x) k =
     (if k = x then Some (case map_of c x of None \<Rightarrow> 1 | Some n \<Rightarrow> n + 1) else map_of c k)"
  by (simp add: count_step_of_def update_conv')

lemma first_seen_cases:
  "x \<in> set acc \<Longrightarrow> first_seen acc x = acc"
  "x \<notin> set acc \<Longrightarrow> first_seen acc x = acc @ [x]"
  by (simp_all add: first_seen_def)

lemma set_first_seen: "set (first_seen acc x) = insert x (set acc)"
  by (auto simp: first_seen_def)

lemma keys_count_fold:
  "map fst (foldl count_step_of c xs) = foldl first_seen (map fst c) xs"
  by (induction xs arbitrary: c) (simp_all add: keys_count_step)

lemma distinct_count_fold:
  "distinct (map fst c) \<Longrightarrow> distinct (map fst (foldl count_step_of c xs))"
  by (induction xs arbitrary: c) (simp_all add: distinct_count_step)

lemma map_of_count_fold:
  "map_of (foldl count_step_of c xs) k =
     (case map_of c k of
        None \<Rightarrow> (if k \<in> set xs then Some (count_list xs k) else None)
      | Some m \<Rightarrow> Some (m + count_list xs k))"
proof (induction xs arbitrary: c)
  case Nil
  then show ?case by (simp split: option.splits)
next
  case (Cons x xs)
  show ?case
    by (auto simp: Cons.IH map_of_count_step split: option.splits)
qed

lemma set_first_seen_fold: "set (foldl first_seen acc xs) = set acc \<union> set xs"
  by (induction xs arbitrary: acc) (auto simp: set_first_seen)

lemma find_None_iff': "find P xs = None \<longleftrightarrow> (\<forall>x\<in>set xs. \<not> P x)"
  by (induction xs) auto

lemma find_app:
  "find P (xs @ ys) = (case find P xs of None \<Rightarrow> find P ys | Some x \<Rightarrow> Some x)"
  by (induction xs) simp_all

lemma find_first_seen_fold:
  "find P (foldl first_seen acc xs) =
     (case find P acc of Some a \<Rightarrow> Some a | None \<Rightarrow> find P xs)"
proof (induction xs arbitrary: acc)
  case Nil
  then show ?case by (simp split: option.splits)
next
  case (Cons x xs)
  show ?case
  proof (cases "find P acc")
    case None
    then have no: "\<forall>y\<in>set acc. \<not> P y" by (simp add: find_None_iff')
    show ?thesis
    proof (cases "x \<in> set acc")
      case True
      then show ?thesis using None no by (simp add: Cons.IH first_seen_cases)
    next
      case False
      then show ?thesis using None by (simp add: Cons.IH first_seen_cases find_app)
    qed
  next
    case (Some a)
    then show ?thesis
      by (cases "x \<in> set acc") (simp_all add: Cons.IH first_seen_cases find_app)
  qed
qed

lemma find_map_inj:
  "find Q (map f xs) = map_option f (find (\<lambda>x. Q (f x)) xs)"
  by (induction xs) simp_all

lemma alist_as_map:
  assumes "distinct (map fst l)"
  shows "l = map (\<lambda>k. (k, the (map_of l k))) (map fst l)"
proof -
  have "map (\<lambda>p. (fst p, the (map_of l (fst p)))) l = l"
  proof (rule map_idI)
    fix p assume "p \<in> set l"
    then have "(fst p, snd p) \<in> set l" by simp
    then have "map_of l (fst p) = Some (snd p)"
      using assms by (simp only: map_of_eq_Some_iff)
    then show "(fst p, the (map_of l (fst p))) = p" by simp
  qed
  then show ?thesis by (simp add: comp_def)
qed

lemma Counter_as_map:
  "Counter h = map (\<lambda>k. (k, count_list h k)) (foldl first_seen [] h)"
proof -
  let ?C = "Counter h"
  have d: "distinct (map fst ?C)" by (simp add: Counter_fold distinct_count_fold)
  have k: "map fst ?C = foldl first_seen [] h"
    using keys_count_fold [of "[]" h] by (simp add: Counter_fold)
  have v: "the (map_of ?C x) = count_list h x" if "x \<in> set (foldl first_seen [] h)" for x
    using that by (simp add: Counter_fold map_of_count_fold set_first_seen_fold)
  have "?C = map (\<lambda>k. (k, the (map_of ?C k))) (map fst ?C)" using d by (rule alist_as_map)
  also have "\<dots> = map (\<lambda>k. (k, count_list h k)) (foldl first_seen [] h)"
    unfolding k using v by simp
  finally show ?thesis .
qed

lemma max_item_first:
  assumes "\<forall>x\<in>set p0. snd x < snd b" "\<forall>x\<in>set q0. snd x \<le> snd b"
  shows "\<exists>p q. p0 @ b # q0 @ ys = p @ max_item b ys # q
           \<and> (\<forall>x\<in>set p. snd x < snd (max_item b ys))
           \<and> (\<forall>x\<in>set q. snd x \<le> snd (max_item b ys))"
  using assms
proof (induction ys arbitrary: b p0 q0)
  case Nil
  then show ?case by auto
next
  case (Cons y ys)
  show ?case
  proof (cases "snd b < snd y")
    case True
    have "\<forall>x\<in>set (p0 @ b # q0). snd x < snd y" "\<forall>x\<in>set []. snd x \<le> snd y"
      using Cons.prems True by auto
    from Cons.IH [OF this] show ?thesis using True by simp
  next
    case False
    have "\<forall>x\<in>set p0. snd x < snd b" "\<forall>x\<in>set (q0 @ [y]). snd x \<le> snd b"
      using Cons.prems False by auto
    from Cons.IH [OF this] show ?thesis using False by simp
  qed
qed

lemma find_max_item:
  "find (\<lambda>p. \<forall>x\<in>set (b # ys). snd x \<le> snd p) (b # ys) = Some (max_item b ys)"
proof -
  obtain p q where d: "b # ys = p @ max_item b ys # q"
    "\<forall>x\<in>set p. snd x < snd (max_item b ys)" "\<forall>x\<in>set q. snd x \<le> snd (max_item b ys)"
    using max_item_first [of "[]" b "[]" ys] by auto
  let ?P = "\<lambda>p. \<forall>x\<in>set (b # ys). snd x \<le> snd p"
  have "find ?P p = None"
    unfolding find_None_iff'
  proof
    fix x assume "x \<in> set p"
    then have "snd x < snd (max_item b ys)" using d(2) by simp
    moreover have "max_item b ys \<in> set (b # ys)" by (subst d(1)) simp
    ultimately show "\<not> ?P x" by (meson not_less)
  qed
  moreover have "?P (max_item b ys)"
    by (subst d(1)) (use d(2,3) in \<open>auto simp: less_imp_le\<close>)
  ultimately show ?thesis
    by (subst (2) d(1)) (simp add: find_app)
qed

lemma most_common_mode_first: "most_common h = mode_first h"
proof (cases "Counter h")
  case Nil
  then have "foldl first_seen [] h = []" by (simp add: Counter_as_map)
  then have "h = []" using set_first_seen_fold [of "[]" h] by simp
  then show ?thesis by (simp add: most_common_def mode_first_def Counter_def)
next
  case (Cons b ys)
  let ?K = "foldl first_seen [] h"
  let ?f = "\<lambda>k. (k, count_list h k)"
  have C: "b # ys = map ?f ?K" using Counter_as_map [of h] Cons by simp
  have "Some (max_item b ys) = find (\<lambda>p. \<forall>x\<in>set (b # ys). snd x \<le> snd p) (b # ys)"
    by (simp only: find_max_item)
  also have "\<dots> = map_option ?f (find (\<lambda>k. \<forall>x\<in>set (map ?f ?K). snd x \<le> snd (?f k)) ?K)"
    unfolding C by (rule find_map_inj)
  also have "(\<lambda>k. \<forall>x\<in>set (map ?f ?K). snd x \<le> snd (?f k)) = is_mode h"
    by (auto simp: is_mode_def list_all_iff set_first_seen_fold)
  also have "find (is_mode h) ?K = find (is_mode h) h"
    by (simp add: find_first_seen_fold)
  finally have "Some (max_item b ys) = map_option ?f (mode_first h)"
    by (simp add: mode_first_def)
  then show ?thesis
    by (cases "mode_first h") (auto simp: most_common_def Cons)
qed

section \<open>Tracker: history and current label\<close>

lemma run_vote_frames:
  "map (\<lambda>p. (gender (snd p), gender_history (snd p))) (objects (run reference_runtime camera_tracker vote_frames))
     = [(Male, [Male, Female, Female, Male])]"
  by (simp add: run_def vote_frames_def tracker_eval)

text \<open>
  C3 as stated fails for the tie-break: after the labels Male, Female, Female, Male the
  label first to reach the maximal count 2 is Female, and the track is labelled Male.
\<close>

theorem tie_not_first_to_reach:
  "map (\<lambda>p. (gender (snd p), gender_history (snd p))) (objects (run reference_runtime camera_tracker vote_frames))
     = [(Male, [Male, Female, Female, Male])]
   \<and> spec_mode [Male, Female, Female, Male] = Some Female"
  by (simp add: run_vote_frames spec_mode_def)

lemma find_Some_split:
  "find P xs = Some x \<Longrightarrow> \<exists>p q. xs = p @ x # q \<and> P x \<and> (\<forall>y\<in>set p. \<not> P y)"
proof (induction xs)
  case Nil
  then show ?case by simp
next
  case (Cons a xs)
  show ?case
  proof (cases "P a")
    case True
    then have "x = a" using Cons.prems by simp
    then have "a # xs = [] @ x # xs \<and> P x \<and> (\<forall>y\<in>set []. \<not> P y)" using True by simp
    then show ?thesis by blast
  next
    case False
    then have "find P xs = Some x" using Cons.prems by simp
    from Cons.IH [OF this] obtain p q where "xs = p @ x # q" "P x" "\<forall>y\<in>set p. \<not> P y" by blast
    then have "a # xs = (a # p) @ x # q \<and> P x \<and> (\<forall>y\<in>set (a # p). \<not> P y)"
      using False by simp
    then show ?thesis by blast
  qed
qed

lemma mode_first_tie:
  assumes "mode_first h = Some x"
  shows "(\<forall>y. count_list h y \<le> count_list h x)
         \<and> (\<exists>p q. h = p @ x # q \<and> (\<forall>y\<in>set p. count_list h y < count_list h x))"
proof -
  from find_Some_split [OF assms [unfolded mode_first_def]]
  obtain p q where d: "h = p @ x # q" "is_mode h x" "\<forall>y\<in>set p. \<not> is_mode h y" by blast
  have mx: "count_list h y \<le> count_list h x" for y
  proof (cases "y \<in> set h")
    case True
    then show ?thesis using d(2) by (simp add: is_mode_def list_all_iff)
  next
    case False
    then show ?thesis by (simp add: count_list_0_iff)
  qed
  have "count_list h y < count_list h x" if "y \<in> set p" for y
  proof -
    from d(3) that obtain z where "z \<in> set h" "\<not> count_list h z \<le> count_list h y"
      by (auto simp: is_mode_def list_all_iff)
    then show ?thesis using mx [of z] by simp
  qed
  then show ?thesis using mx d(1) by blast
qed

text \<open>
  C3, as amended. After every update every live track has a history of at most 20 labels,
  and its current label is the mode of that history, a tie going to the label that occurs
  first in the history: no label occurs more often than the current one, and every label
  in front of its first occurrence occurs less often. A matched label that is not Unknown
  is appended, and appending to a history of 20 labels drops the oldest one. The history
  Male, Male, Female has the mode Male.
\<close>

theorem history_bounded_and_mode:
  "list_all (\<lambda>p. length (gender_history (snd p)) \<le> 20
                 \<and> mode_first (gender_history (snd p)) = Some (gender (snd p)))
     (objects (run rt camera_tracker frames))
   \<and> (gender r \<noteq> Unknown \<longrightarrow>
        gender_history (matched t c r) = push_history (gender_history t) (gender r))
   \<and> (length h < 20 \<longrightarrow> push_history h g = h @ [g])
   \<and> (length h = 20 \<longrightarrow> push_history h g = tl h @ [g])
   \<and> (mode_first h = Some x \<longrightarrow>
        (\<forall>y. count_list h y \<le> count_list h x)
        \<and> (\<exists>p q. h = p @ x # q \<and> (\<forall>y\<in>set p. count_list h y < count_list h x)))
   \<and> mode_first [Male, Male, Female] = Some Male"
proof -
  have a: "list_all (\<lambda>p. length (gender_history (snd p)) \<le> 20
                 \<and> mode_first (gender_history (snd p)) = Some (gender (snd p)))
     (objects (run rt camera_tracker frames))"
    using camera_tracker_ok [of rt frames]
    by (simp add: tracker_ok_def track_ok_def list_all_iff most_common_mode_first)
  have b: "gender r \<noteq> Unknown \<Longrightarrow>
        gender_history (matched t c r) = push_history (gender_history t) (gender r)"
    by (simp add: matched_def Let_def)
  have c: "length h < 20 \<Longrightarrow> push_history h g = h @ [g]"
    by (simp add: push_history_cases)
  have d: "length h = 20 \<Longrightarrow> push_history h g = tl h @ [g]"
    by (cases h) (simp_all add: push_history_cases)
  have e: "mode_first [Male, Male, Female] = Some Male"
    by (simp add: mode_first_def is_mode_def)
  show ?thesis using a b c d e mode_first_tie [of h x] by blast
qed

theorem history_bounded_and_mode_witness:
  "list_all (\<lambda>p. length (gender_history (snd p)) \<le> 20
                 \<and> mode_first (gender_history (snd p)) = Some (gender (snd p)))
     (objects (run reference_runtime camera_tracker vote_frames))
   \<and> gender (obs 0 Female) \<noteq> Unknown
   \<and> gender_history (matched (new_track (obs 0 Male)) (1, 1) (obs 0 Female)) = [Male, Female]
   \<and> length (replicate 20 Male) = 20
   \<and> push_history (replicate 20 Male) Female = tl (replicate 20 Male) @ [Female]
   \<and> mode_first [Male, Female, Female, Male] = Some Male
   \<and> count_list [Male, Female, Female, Male] Female \<le> count_list [Male, Female, Female, Male] Male"
proof -
  have a: "gender (obs 0 Female) \<noteq> Unknown" by (simp add: obs_def)
  have b: "length (replicate 20 Male) = 20" by simp
  have c: "mode_first [Male, Female, Female, Male] = Some Male"
    by (simp add: mode_first_def is_mode_def)
  have d: "push_history (gender_history (new_track (obs 0 Male))) (gender (obs 0 Female)) = [Male, Female]"
    by (simp add: new_track_def obs_def push_history_def)
  from history_bounded_and_mode [of reference_runtime vote_frames "obs 0 Female" "new_track (obs 0 Male)" "(1, 1)"
      "replicate 20 Male" Female Male] 
       history_bounded_and_mode [of reference_runtime vote_frames "obs 0 Female" "new_track (obs 0 Male)" "(1, 1)"
      "[Male, Female, Female, Male]" Female Male] a b c d
  show ?thesis by simp
qed

section \<open>Tracker: registration\<close>

text \<open>
  C2 fails on the code. \<open>register\<close> stores the track under the next id with no unseen
  frame, one hit and the history \<open>[label]\<close> for every label, Unknown included (the
  matching loop keeps Unknown out of the history, \<open>register\<close> does not). An observation
  labelled Unknown, registered in the first frame or later as an unmatched one, gets the
  history \<open>[Unknown]\<close>; when the person of the first frame is then seen as Male, the
  history is Unknown, Male and the label stays Unknown.
\<close>

theorem register_records_unknown:
  "map_of (objects (register s c b g cf)) (next_object_id s)
     = Some \<lparr>bbox = b, gender = g, confidence = cf, centroid = c,
              gender_history = [g], hits = 1, disappeared = 0\<rparr>
   \<and> objects (run reference_runtime camera_tracker [[obs 0 Unknown]]) = [(0, new_track (obs 0 Unknown))]
   \<and> gender_history (new_track (obs 0 Unknown)) = [Unknown]
   \<and> map (\<lambda>p. (gender (snd p), gender_history (snd p)))
         (objects (run reference_runtime camera_tracker unknown_first_frames)) = [(Unknown, [Unknown, Male])]
   \<and> map (\<lambda>p. (gender (snd p), gender_history (snd p), hits (snd p), disappeared (snd p)))
         (objects (run reference_runtime camera_tracker unknown_later_frames))
       = [(Male, [Male], 1, 1), (Unknown, [Unknown], 1, 0)]"
  by (simp add: run_def unknown_first_frames_def unknown_later_frames_def tracker_eval new_track_def
      update_conv')

section \<open>Tracker: data association\<close>

subsection \<open>The matching loop is a greedy pass\<close>

lemma greedy_accept_cases:
  "greedy_accept D maxd acc p = acc \<or> greedy_accept D maxd acc p = acc @ [p]"
  by (simp add: greedy_accept_def)

lemma greedy_fold_prefix:
  "\<exists>ext. foldl (greedy_accept D maxd) acc ps = acc @ ext"
proof (induction ps arbitrary: acc)
  case Nil
  then show ?case by simp
next
  case (Cons p ps)
  from Cons.IH [of "greedy_accept D maxd acc p"]
  obtain ext where e: "foldl (greedy_accept D maxd) (greedy_accept D maxd acc p) ps
      = greedy_accept D maxd acc p @ ext" by blast
  from greedy_accept_cases [of D maxd acc p] show ?case
  proof
    assume "greedy_accept D maxd acc p = acc"
    then show ?thesis using e by simp
  next
    assume "greedy_accept D maxd acc p = acc @ [p]"
    then show ?thesis using e by simp
  qed
qed

lemma greedy_fold_inv:
  assumes "distinct (map fst acc)" "distinct (map snd acc)"
  shows "distinct (map fst (foldl (greedy_accept D maxd) acc ps))
         \<and> distinct (map snd (foldl (greedy_accept D maxd) acc ps))
         \<and> set (foldl (greedy_accept D maxd) acc ps) \<subseteq> set acc \<union> set ps
         \<and> list_all (near_enough D maxd) (drop (length acc) (foldl (greedy_accept D maxd) acc ps))"
  using assms
proof (induction ps arbitrary: acc)
  case Nil
  then show ?case by simp
next
  case (Cons p ps)
  show ?case
  proof (cases "fst p \<notin> set (map fst acc) \<and> snd p \<notin> set (map snd acc) \<and> near_enough D maxd p")
    case True
    then have g: "greedy_accept D maxd acc p = acc @ [p]" by (simp add: greedy_accept_def)
    have d: "distinct (map fst (acc @ [p]))" "distinct (map snd (acc @ [p]))"
      using True Cons.prems by auto
    obtain ext where e: "foldl (greedy_accept D maxd) (acc @ [p]) ps = (acc @ [p]) @ ext"
      using greedy_fold_prefix by blast
    from Cons.IH [OF d] True show ?thesis
      by (auto simp: g e)
  next
    case False
    then have g: "greedy_accept D maxd acc p = acc" by (auto simp: greedy_accept_def)
    from Cons.IH [OF Cons.prems] show ?thesis by (auto simp: g)
  qed
qed

lemma update_matched_fields:
  "max_distance (update_matched s i c r) = max_distance s"
  "max_disappeared (update_matched s i c r) = max_disappeared s"
  "next_object_id (update_matched s i c r) = next_object_id s"
  by (simp_all add: update_matched_def split: option.splits)

lemma apply_pair_fields:
  "max_distance (apply_pair ids rects s p) = max_distance s"
  "max_disappeared (apply_pair ids rects s p) = max_disappeared s"
  "next_object_id (apply_pair ids rects s p) = next_object_id s"
  by (simp_all add: apply_pair_def update_matched_fields)

lemma match_fold_greedy:
  "foldl (match_step D ids (map input_centroid rects) rects)
         (s, map fst (rev acc), map snd (rev acc)) ps
   = (foldl (apply_pair ids rects) s
        (drop (length acc) (foldl (greedy_accept D (max_distance s)) acc ps)),
      map fst (rev (foldl (greedy_accept D (max_distance s)) acc ps)),
      map snd (rev (foldl (greedy_accept D (max_distance s)) acc ps)))"
proof (induction ps arbitrary: s acc)
  case Nil
  then show ?case by simp
next
  case (Cons p ps)
  obtain row col where p: "p = (row, col)" by (cases p)
  let ?maxd = "max_distance s"
  show ?case
  proof (cases "fst p \<notin> set (map fst acc) \<and> snd p \<notin> set (map snd acc) \<and> near_enough D ?maxd p")
    case True
    then have g: "greedy_accept D ?maxd acc p = acc @ [p]" by (simp add: greedy_accept_def)
    obtain ext where e: "foldl (greedy_accept D ?maxd) (acc @ [p]) ps = (acc @ [p]) @ ext"
      using greedy_fold_prefix by blast
    have step: "match_step D ids (map input_centroid rects) rects
                 (s, map fst (rev acc), map snd (rev acc)) p
          = (apply_pair ids rects s p, map fst (rev (acc @ [p])), map snd (rev (acc @ [p])))"
      using True by (auto simp: p near_enough_def apply_pair_def)
    show ?thesis
      unfolding foldl.simps step
      by (subst Cons.IH) (simp add: apply_pair_fields g e)
  next
    case False
    then have g: "greedy_accept D ?maxd acc p = acc" by (auto simp: greedy_accept_def)
    have step: "match_step D ids (map input_centroid rects) rects
                 (s, map fst (rev acc), map snd (rev acc)) p
          = (s, map fst (rev acc), map snd (rev acc))"
      using False by (auto simp: p near_enough_def)
    show ?thesis
      unfolding foldl.simps step
      by (subst Cons.IH) (simp add: g)
  qed
qed


subsection \<open>Rows by their nearest column\<close>

lemma insort_key_map:
  "insort_key f (g x) (map g xs) = map g (insort_key (\<lambda>y. f (g y)) x xs)"
  by (induction xs) simp_all

lemma sort_key_map:
  "sort_key f (map g xs) = map g (sort_key (\<lambda>y. f (g y)) xs)"
  by (induction xs) (simp_all add: insort_key_map)

lemma insort_key_cong_set:
  "f x = g x \<Longrightarrow> \<forall>y\<in>set xs. f y = g y \<Longrightarrow> insort_key f x xs = insort_key g x xs"
  by (induction xs) simp_all

lemma sort_key_cong_set:
  "\<forall>y\<in>set xs. f y = g y \<Longrightarrow> sort_key f xs = sort_key g xs"
proof (induction xs)
  case Nil
  then show ?case by simp
next
  case (Cons x xs)
  then have "sort_key f xs = sort_key g xs" by simp
  moreover have "\<forall>y\<in>set (sort_key g xs). f y = g y" using Cons.prems by simp
  ultimately show ?case
    using Cons.prems insort_key_cong_set [of f x g "sort_key g xs"] by simp
qed

lemma length_takeWhile_less:
  "x \<in> set xs \<Longrightarrow> \<not> P x \<Longrightarrow> length (takeWhile P xs) < length xs"
  by (induction xs) auto

lemma argmin_less: "xs \<noteq> [] \<Longrightarrow> argmin xs < length xs"
proof -
  assume ne: "xs \<noteq> []"
  then have "min_list xs \<in> set xs" by (simp add: min_list_Min)
  then show ?thesis
    unfolding argmin_def by (rule length_takeWhile_less) simp
qed

lemma nth_argmin: "xs \<noteq> [] \<Longrightarrow> xs ! argmin xs = min_list xs"
proof -
  assume ne: "xs \<noteq> []"
  from argmin_less [OF ne] have "length (takeWhile (\<lambda>x. x \<noteq> min_list xs) xs) < length xs"
    by (simp add: argmin_def)
  from nth_length_takeWhile [OF this] show ?thesis by (simp add: argmin_def)
qed

lemma zip_map_self: "zip xs (map f xs) = map (\<lambda>x. (x, f x)) xs"
  by (induction xs) simp_all

lemma candidates_reference:
  assumes "\<forall>row\<in>set D. row \<noteq> []"
  shows "candidates reference_runtime D = by_distance D (nearest_pairs D)"
proof -
  have k: "\<forall>r\<in>set [0..<length D]. D ! r ! argmin (D ! r) = map min_list D ! r"
    using assms by (simp add: nth_argmin)
  have "by_distance D (nearest_pairs D)
        = map (\<lambda>r. (r, argmin (D ! r))) (sort_key (\<lambda>r. D ! r ! argmin (D ! r)) [0..<length D])"
    by (simp add: by_distance_def nearest_pairs_def sort_key_map)
  also have "sort_key (\<lambda>r. D ! r ! argmin (D ! r)) [0..<length D] = argsort (map min_list D)"
    unfolding argsort_def
    using sort_key_cong_set [of "[0..<length D]" "\<lambda>r. D ! r ! argmin (D ! r)" "\<lambda>i. map min_list D ! i"] k
    by simp
  finally show ?thesis by (simp add: candidates_def reference_runtime_def)
qed

lemma runtime_ok_reference: "runtime_ok reference_runtime"
  by (simp add: runtime_ok_def reference_runtime_def argsort_def sorted_sort_key)

lemma candidates_sorted:
  assumes "runtime_ok rt" "\<forall>row\<in>set D. row \<noteq> []"
  shows "mset (candidates rt D) = mset (nearest_pairs D)"
    and "sorted (map (\<lambda>p. D ! fst p ! snd p) (candidates rt D))"
proof -
  let ?rows = "argsort_impl rt (map min_list D)"
  have m: "mset ?rows = mset [0..<length D]" and so: "sorted (map (\<lambda>i. map min_list D ! i) ?rows)"
    using assms(1) runtime_ok_def [of rt] by (metis length_map)+
  show "mset (candidates rt D) = mset (nearest_pairs D)"
    unfolding candidates_def nearest_pairs_def using m by (metis mset_map)
  have "set ?rows = set [0..<length D]" using m by (rule mset_eq_setD)
  then have "\<forall>r\<in>set ?rows. D ! r ! argmin (D ! r) = map min_list D ! r"
    using assms(2) by (simp add: nth_argmin)
  then have "map (\<lambda>p. D ! fst p ! snd p) (candidates rt D) = map (\<lambda>i. map min_list D ! i) ?rows"
    by (simp add: candidates_def)
  then show "sorted (map (\<lambda>p. D ! fst p ! snd p) (candidates rt D))"
    using so by simp
qed

lemma distances_rows:
  "length (distances s rects) = length (objects s)"
  "\<forall>row\<in>set (distances s rects). length row = length rects"
  by (auto simp: distances_def dist_sq_def)

lemma match_loop_greedy:
  "match_loop rt s rects =
     (foldl (apply_pair (map fst (objects s)) rects) s (nearest_association rt s rects),
      map fst (rev (nearest_association rt s rects)),
      map snd (rev (nearest_association rt s rects)))"
proof -
  let ?D = "distances s rects"
  let ?ps = "zip (argsort_impl rt (map min_list ?D))
                 (map (\<lambda>r. argmin (?D ! r)) (argsort_impl rt (map min_list ?D)))"
  let ?step = "match_step ?D (map fst (objects s)) (map input_centroid rects) rects"
  have a: "match_loop rt s rects = foldl ?step (s, map fst (rev ([] :: (nat \<times> nat) list)), map snd (rev ([] :: (nat \<times> nat) list))) ?ps"
    unfolding match_loop_def distances_def Let_def by simp
  have b: "foldl ?step (s, map fst (rev ([] :: (nat \<times> nat) list)), map snd (rev ([] :: (nat \<times> nat) list))) ?ps
      = (foldl (apply_pair (map fst (objects s)) rects) s
           (drop (length ([] :: (nat \<times> nat) list)) (foldl (greedy_accept ?D (max_distance s)) [] ?ps)),
         map fst (rev (foldl (greedy_accept ?D (max_distance s)) [] ?ps)),
         map snd (rev (foldl (greedy_accept ?D (max_distance s)) [] ?ps)))"
    by (rule match_fold_greedy)
  have c: "foldl (greedy_accept ?D (max_distance s)) [] ?ps = nearest_association rt s rects"
    unfolding zip_map_self nearest_association_def greedy_def candidates_def ..
  have "match_loop rt s rects = (foldl (apply_pair (map fst (objects s)) rects) s
           (drop (length ([] :: (nat \<times> nat) list)) (nearest_association rt s rects)),
         map fst (rev (nearest_association rt s rects)),
         map snd (rev (nearest_association rt s rects)))"
    by (simp only: a b c)
  then show ?thesis by (simp only: list.size drop_0)
qed

lemma association_nearest:
  "association rt s rects = nearest_association rt s rects"
  unfolding association_def match_loop_greedy
  by (simp only: prod.case zip_map_fst_snd rev_rev_ident)


subsection \<open>The tracker after the matching loop\<close>

lemma map_of_update_matched:
  "map_of (objects (update_matched s i c r)) k =
     (if k = i then map_option (\<lambda>t. matched t c r) (map_of (objects s) k)
      else map_of (objects s) k)"
  by (simp add: update_matched_def update_conv' split: option.splits)

lemma map_of_apply_pair:
  "map_of (objects (apply_pair ids rects s p)) k =
     (if k = ids ! fst p
      then map_option (\<lambda>t. matched t (input_centroid (rects ! snd p)) (rects ! snd p))
             (map_of (objects s) k)
      else map_of (objects s) k)"
  if "snd p < length rects"
  using that by (simp add: apply_pair_def map_of_update_matched)

lemma map_of_apply_pairs:
  assumes "distinct (map (\<lambda>p. ids ! fst p) G)" "\<forall>p\<in>set G. snd p < length rects"
  shows "map_of (objects (foldl (apply_pair ids rects) s G)) k =
     (case find (\<lambda>p. ids ! fst p = k) G of
        None \<Rightarrow> map_of (objects s) k
      | Some p \<Rightarrow> map_option (\<lambda>t. matched t (input_centroid (rects ! snd p)) (rects ! snd p))
                    (map_of (objects s) k))"
  using assms
proof (induction G arbitrary: s)
  case Nil
  then show ?case by simp
next
  case (Cons p G)
  have d: "distinct (map (\<lambda>p. ids ! fst p) G)" "\<forall>p\<in>set G. snd p < length rects"
    and p: "snd p < length rects"
    using Cons.prems by auto
  have notin: "ids ! fst p \<notin> (\<lambda>p. ids ! fst p) ` set G"
    using Cons.prems(1) by simp
  have fresh: "\<forall>q\<in>set G. ids ! fst q \<noteq> ids ! fst p"
  proof
    fix q assume "q \<in> set G"
    then have "ids ! fst q \<in> (\<lambda>p. ids ! fst p) ` set G" by (rule imageI)
    then show "ids ! fst q \<noteq> ids ! fst p" using notin by metis
  qed
  show ?case
  proof (cases "ids ! fst p = k")
    case True
    then have "find (\<lambda>q. ids ! fst q = k) G = None"
      using fresh by (simp add: find_None_iff')
    moreover have "map_of (objects (apply_pair ids rects s p)) k
        = map_option (\<lambda>t. matched t (input_centroid (rects ! snd p)) (rects ! snd p))
            (map_of (objects s) k)"
      using True map_of_apply_pair [OF p, of ids s k] by auto
    ultimately show ?thesis
      using True by (simp add: Cons.IH [OF d] cong: option.case_cong)
  next
    case False
    then have e: "map_of (objects (apply_pair ids rects s p)) k = map_of (objects s) k"
      using map_of_apply_pair [OF p, of ids s k] by auto
    show ?thesis
      using False by (simp add: Cons.IH [OF d] e cong: option.case_cong)
  qed
qed

lemma foldl_apply_pair_fields:
  "max_disappeared (foldl (apply_pair ids rects) s G) = max_disappeared s"
  "next_object_id (foldl (apply_pair ids rects) s G) = next_object_id s"
  by (induction G arbitrary: s) (simp_all add: apply_pair_fields)

lemma foldl_apply_pair_ok:
  "tracker_ok s \<Longrightarrow> tracker_ok (foldl (apply_pair ids rects) s G)"
  by (induction G arbitrary: s) (simp_all add: apply_pair_def update_matched_ok)

subsection \<open>Registration of the unmatched observations\<close>

lemma register_new_track:
  "i < length rects \<Longrightarrow>
   register s (map input_centroid rects ! i) (bbox (rects ! i)) (gender (rects ! i))
     (confidence (rects ! i))
   = s\<lparr>objects := AList.update (next_object_id s) (new_track (rects ! i)) (objects s),
       next_object_id := next_object_id s + 1\<rparr>"
  by (simp add: register_def new_track_def)

lemma foldl_register:
  assumes "tracker_ok s" "\<forall>c\<in>set cs. c < length rects"
  shows "objects (foldl (\<lambda>s' i. register s' (map input_centroid rects ! i) (bbox (rects ! i))
                              (gender (rects ! i)) (confidence (rects ! i))) s cs)
         = objects s @ zip [next_object_id s ..< next_object_id s + length cs]
                          (map (\<lambda>c. new_track (rects ! c)) cs)"
  using assms
proof (induction cs arbitrary: s)
  case Nil
  then show ?case by simp
next
  case (Cons c cs)
  let ?s' = "register s (map input_centroid rects ! c) (bbox (rects ! c)) (gender (rects ! c))
     (confidence (rects ! c))"
  have ok: "tracker_ok ?s'" using Cons.prems(1) by (rule register_ok)
  have fresh: "next_object_id s \<notin> fst ` set (objects s)"
    using Cons.prems(1) by (auto simp: tracker_ok_def list_all_iff)
  have c: "c < length rects" "\<forall>c\<in>set cs. c < length rects" using Cons.prems(2) by auto
  have o: "objects ?s' = objects s @ [(next_object_id s, new_track (rects ! c))]"
    "next_object_id ?s' = Suc (next_object_id s)"
    by (simp_all add: register_new_track [OF c(1)] update_fresh [OF fresh])
  have u: "[next_object_id s ..< next_object_id s + length (c # cs)]
      = next_object_id s # [Suc (next_object_id s) ..< Suc (next_object_id s) + length cs]"
    using upt_conv_Cons [of "next_object_id s" "next_object_id s + length (c # cs)"] by simp
  show ?case
    unfolding foldl.simps Cons.IH [OF ok c(2)] o u by simp
qed


subsection \<open>The effect of an update with tracks and observations\<close>

lemma nearest_association_props:
  assumes "runtime_ok rt" "rects \<noteq> []"
  shows "distinct (map fst (nearest_association rt s rects))"
    and "distinct (map snd (nearest_association rt s rects))"
    and "\<forall>p\<in>set (nearest_association rt s rects). fst p < length (objects s) \<and> snd p < length rects"
proof -
  let ?D = "distances s rects"
  let ?G = "nearest_association rt s rects"
  have ne: "\<forall>row\<in>set ?D. row \<noteq> []"
    using distances_rows(2) [of s rects] assms(2) by auto
  have inv: "distinct (map fst ?G) \<and> distinct (map snd ?G)
      \<and> set ?G \<subseteq> set [] \<union> set (candidates rt ?D)"
    unfolding nearest_association_def greedy_def
    using greedy_fold_inv [of "[]" ?D "max_distance s" "candidates rt ?D"] by simp
  show "distinct (map fst ?G)" "distinct (map snd ?G)" using inv by auto
  have "set (candidates rt ?D) = set (nearest_pairs ?D)"
    using candidates_sorted(1) [OF assms(1) ne] by (rule mset_eq_setD)
  then have sub: "set ?G \<subseteq> set (nearest_pairs ?D)" using inv by simp
  show "\<forall>p\<in>set ?G. fst p < length (objects s) \<and> snd p < length rects"
  proof
    fix p assume "p \<in> set ?G"
    then have "p \<in> set (nearest_pairs ?D)" using sub by auto
    then obtain r where r: "r < length ?D" "p = (r, argmin (?D ! r))"
      by (auto simp: nearest_pairs_def)
    have "?D ! r \<in> set ?D" using r(1) by simp
    then have len: "length (?D ! r) = length rects" using distances_rows(2) by blast
    then have "?D ! r \<noteq> []" using assms(2) by auto
    from argmin_less [OF this] show "fst p < length (objects s) \<and> snd p < length rects"
      using r len by (simp add: distances_rows(1))
  qed
qed

lemma update_unfold:
  assumes "objects s \<noteq> []" "rects \<noteq> []"
  shows "update rt s rects =
    foldl (\<lambda>s' i. register s' (map input_centroid rects ! i) (bbox (rects ! i))
                              (gender (rects ! i)) (confidence (rects ! i)))
      (foldl age (foldl (apply_pair (map fst (objects s)) rects) s (association rt s rects))
         (map (\<lambda>row. map fst (objects s) ! row)
            (set_iter rt (length (objects s))
               (filter (\<lambda>r. r \<notin> set (map fst (association rt s rects))) [0..<length (objects s)]))))
      (set_iter rt (length rects)
         (filter (\<lambda>c. c \<notin> set (map snd (association rt s rects))) [0..<length rects]))"
  using assms
  by (simp add: update_def Let_def match_loop_greedy association_nearest foldl_map)

lemma foldl_register_next:
  "next_object_id (foldl (\<lambda>s' i. register s' (f i) (b i) (g i) (cf i)) s cs)
     = next_object_id s + length cs"
  by (induction cs arbitrary: s) (simp_all add: register_def)

lemma nth_key_lookup:
  assumes "distinct (map fst al)" "r < length al"
  shows "map_of al (fst (al ! r)) = Some (snd (al ! r))"
proof -
  have "(fst (al ! r), snd (al ! r)) \<in> set al" using assms(2) by simp
  then show ?thesis using assms(1) by (simp only: map_of_eq_Some_iff)
qed

lemma update_effect:
  assumes rt: "runtime_ok rt" and ok: "tracker_ok s" and ne: "objects s \<noteq> []" "rects \<noteq> []"
  shows "\<forall>p\<in>set (association rt s rects).
           map_of (objects (update rt s rects)) (fst (objects s ! fst p))
             = Some (matched (snd (objects s ! fst p)) (input_centroid (rects ! snd p)) (rects ! snd p))"
    and "\<forall>r<length (objects s). r \<notin> set (map fst (association rt s rects)) \<longrightarrow>
           map_of (objects (update rt s rects)) (fst (objects s ! r))
             = age_result (max_disappeared s) (Some (snd (objects s ! r)))"
    and "\<forall>c<length rects. c \<notin> set (map snd (association rt s rects)) \<longrightarrow>
           (\<exists>i\<ge>next_object_id s. map_of (objects (update rt s rects)) i = Some (new_track (rects ! c)))"
    and "next_object_id (update rt s rects)
           = next_object_id s
             + length (filter (\<lambda>c. c \<notin> set (map snd (association rt s rects))) [0..<length rects])"
proof -
  define ids where "ids = map fst (objects s)"
  define n where "n = length (objects s)"
  define G where "G = association rt s rects"
  define rows where "rows = set_iter rt n (filter (\<lambda>r. r \<notin> set (map fst G)) [0..<n])"
  define A where "A = map (\<lambda>row. ids ! row) rows"
  define cs where "cs = set_iter rt (length rects)
                         (filter (\<lambda>c. c \<notin> set (map snd G)) [0..<length rects])"
  define s1 where "s1 = foldl (apply_pair ids rects) s G"
  define s2 where "s2 = foldl age s1 A"
  define reg where "reg = (\<lambda>s' i. register s' (map input_centroid rects ! i) (bbox (rects ! i))
                              (gender (rects ! i)) (confidence (rects ! i)))"
  define s3 where "s3 = foldl reg s2 cs"
  define news where "news = zip [next_object_id s ..< next_object_id s + length cs]
                   (map (\<lambda>c. new_track (rects ! c)) cs)"
  have up: "update rt s rects = s3"
    unfolding s3_def reg_def s2_def s1_def A_def rows_def cs_def G_def ids_def n_def
    using ne by (rule update_unfold)
  have Gn: "G = nearest_association rt s rects"
    unfolding G_def by (rule association_nearest)
  have dG: "distinct (map fst G)" "distinct (map snd G)"
    and bG: "\<forall>p\<in>set G. fst p < n \<and> snd p < length rects"
    unfolding Gn n_def using nearest_association_props [OF rt ne(2)] by auto
  have iter: "mset (set_iter rt k xs) = mset xs" for k xs
    using rt by (simp add: runtime_ok_def)
  have dids: "distinct ids" unfolding ids_def using ok by (simp add: tracker_ok_def)
  have lids: "length ids = n" by (simp add: ids_def n_def)
  have eq_idx: "(ids ! i = ids ! j) = (i = j)" if "i < n" "j < n" for i j
    using nth_eq_iff_index_eq [OF dids, of i j] that lids by simp
  have idr: "ids ! r = fst (objects s ! r)" if "r < n" for r
    using that by (simp add: ids_def n_def)
  have ok1: "tracker_ok s1" unfolding s1_def using ok by (rule foldl_apply_pair_ok)
  have ok2: "tracker_ok s2" unfolding s2_def using foldl_ok [of age s1 A] ok1 by (simp add: age_ok)
  have n2: "next_object_id s2 = next_object_id s"
    by (simp add: s2_def s1_def foldl_age_fields foldl_apply_pair_fields)
  have md1: "max_disappeared s1 = max_disappeared s"
    by (simp add: s1_def foldl_apply_pair_fields)
  have cs_set: "set cs = set (filter (\<lambda>c. c \<notin> set (map snd G)) [0..<length rects])"
    unfolding cs_def using iter by (rule mset_eq_setD)
  have cs_len: "length cs = length (filter (\<lambda>c. c \<notin> set (map snd G)) [0..<length rects])"
    unfolding cs_def using iter by (rule mset_eq_length)
  have cs_ok: "\<forall>c\<in>set cs. c < length rects" by (simp add: cs_set)
  have o3: "objects s3 = objects s2 @ news"
    unfolding s3_def reg_def news_def using foldl_register [OF ok2 cs_ok] unfolding n2 .
  have n3: "next_object_id s3 = next_object_id s + length cs"
    unfolding s3_def reg_def by (simp add: foldl_register_next n2)
  have dkeys: "distinct (map (\<lambda>p. ids ! fst p) G)"
  proof -
    have "inj_on (\<lambda>r. ids ! r) (set (map fst G))"
    proof (rule inj_onI)
      fix a b assume a: "a \<in> set (map fst G)" and b: "b \<in> set (map fst G)"
        and e: "ids ! a = ids ! b"
      have "a < n" "b < n" using a b bG by auto
      then show "a = b" using e eq_idx by blast
    qed
    then have "distinct (map (\<lambda>r. ids ! r) (map fst G))"
      using dG(1) by (simp only: distinct_map)
    then show ?thesis by (simp add: comp_def)
  qed
  have "set rows = set (filter (\<lambda>r. r \<notin> set (map fst G)) [0..<n])"
    unfolding rows_def using iter by (rule mset_eq_setD)
  then have rows_set: "r \<in> set rows \<longleftrightarrow> r < n \<and> r \<notin> set (map fst G)" for r
    by auto
  have drows: "distinct rows"
    using mset_eq_imp_distinct_iff [OF iter, of n "filter (\<lambda>r. r \<notin> set (map fst G)) [0..<n]"]
    by (simp add: rows_def)
  have dA: "distinct A"
  proof -
    have "inj_on (\<lambda>r. ids ! r) (set rows)"
    proof (rule inj_onI)
      fix a b assume a: "a \<in> set rows" and b: "b \<in> set rows" and e: "ids ! a = ids ! b"
      have "a < n" "b < n" using a b rows_set by auto
      then show "a = b" using e eq_idx by blast
    qed
    then show ?thesis unfolding A_def using drows by (simp only: distinct_map)
  qed
  have inA: "(ids ! r \<in> set A) = (r \<notin> set (map fst G))" if "r < n" for r
  proof
    assume "ids ! r \<in> set A"
    then obtain x where x: "x \<in> set rows" "ids ! x = ids ! r" unfolding A_def by auto
    then have "x < n" using rows_set by simp
    then have "x = r" using x(2) that eq_idx by blast
    then show "r \<notin> set (map fst G)" using x(1) rows_set by simp
  next
    assume "r \<notin> set (map fst G)"
    then have "r \<in> set rows" using that rows_set by simp
    then show "ids ! r \<in> set A" unfolding A_def by (simp only: set_map) (rule imageI)
  qed
  have look: "map_of (objects s) (ids ! r) = Some (snd (objects s ! r))" if "r < n" for r
  proof -
    have "distinct (map fst (objects s))" using dids by (simp add: ids_def)
    from nth_key_lookup [OF this, of r] that show ?thesis by (simp add: idr n_def)
  qed
  have m1: "map_of (objects s1) k =
     (case find (\<lambda>p. ids ! fst p = k) G of
        None \<Rightarrow> map_of (objects s) k
      | Some p \<Rightarrow> map_option (\<lambda>t. matched t (input_centroid (rects ! snd p)) (rects ! snd p))
                    (map_of (objects s) k))" for k
    unfolding s1_def using bG by (intro map_of_apply_pairs [OF dkeys]) simp
  have m2: "map_of (objects s2) k =
     (if k \<in> set A then age_result (max_disappeared s) (map_of (objects s1) k)
      else map_of (objects s1) k)" for k
    unfolding s2_def using map_of_foldl_age [OF dA, of s1 k] by (simp only: md1)
  have news_keys: "map_of news k = None" if "k < next_object_id s" for k
    using that by (simp add: news_def)
  have old: "map_of (objects s3) k = map_of (objects s2) k" if "k < next_object_id s" for k
    using news_keys [OF that] by (cases "map_of (objects s2) k") (simp_all add: o3 map_add_def)
  have kr: "ids ! r < next_object_id s" if "r < n" for r
  proof -
    have "objects s ! r \<in> set (objects s)" using that by (simp add: n_def)
    then have "fst (objects s ! r) < next_object_id s"
      using ok by (auto simp: tracker_ok_def list_all_iff)
    then show ?thesis using that by (simp add: idr)
  qed
  have matched_rows: "map_of (objects s3) (ids ! fst p)
        = Some (matched (snd (objects s ! fst p)) (input_centroid (rects ! snd p)) (rects ! snd p))"
    if p: "p \<in> set G" for p
  proof -
    have r: "fst p < n" using p bG by simp
    have "find (\<lambda>q. ids ! fst q = ids ! fst p) G = Some p"
    proof (cases "find (\<lambda>q. ids ! fst q = ids ! fst p) G")
      case None
      then have "\<forall>q\<in>set G. ids ! fst q \<noteq> ids ! fst p" by (simp add: find_None_iff')
      then have False using p by blast
      then show ?thesis ..
    next
      case (Some q)
      from find_Some_split [OF Some] obtain pre post where
        q: "G = pre @ q # post" "ids ! fst q = ids ! fst p" by blast
      then have qG: "q \<in> set G" by simp
      then have "fst q < n" using bG by simp
      then have "fst q = fst p" using q(2) r eq_idx by blast
      moreover obtain a b where pab: "p = (a, b)" by (cases p)
      moreover obtain a' b' where qab: "q = (a', b')" by (cases q)
      ultimately have "(a, b') \<in> set G" "(a, b) \<in> set G" using qG p by simp_all
      then have "b' = b" using eq_key_imp_eq_value [OF dG(1)] by blast
      then have "q = p" using \<open>fst q = fst p\<close> pab qab by simp
      then show ?thesis using Some by simp
    qed
    then have "map_of (objects s1) (ids ! fst p)
        = Some (matched (snd (objects s ! fst p)) (input_centroid (rects ! snd p)) (rects ! snd p))"
      by (simp add: m1 look [OF r])
    moreover have "ids ! fst p \<notin> set A" using inA [OF r] p by simp
    ultimately show ?thesis
      using old [OF kr [OF r]] by (simp add: m2)
  qed
  have unmatched_rows: "map_of (objects s3) (ids ! r)
        = age_result (max_disappeared s) (Some (snd (objects s ! r)))"
    if r: "r < n" and un: "r \<notin> set (map fst G)" for r
  proof -
    have "find (\<lambda>q. ids ! fst q = ids ! r) G = None"
      unfolding find_None_iff'
    proof
      fix q assume q: "q \<in> set G"
      then have "fst q \<noteq> r" using un by auto
      moreover have "fst q < n" using q bG by simp
      ultimately show "ids ! fst q \<noteq> ids ! r" using r eq_idx by blast
    qed
    then have "map_of (objects s1) (ids ! r) = Some (snd (objects s ! r))"
      by (simp add: m1 look [OF r])
    moreover have "ids ! r \<in> set A" using inA [OF r] un by simp
    ultimately show ?thesis
      using old [OF kr [OF r]] by (simp add: m2)
  qed
  have unmatched_cols: "\<exists>i\<ge>next_object_id s. map_of (objects s3) i = Some (new_track (rects ! c))"
    if c: "c < length rects" and un: "c \<notin> set (map snd G)" for c
  proof -
    have "c \<in> set cs" using c un by (simp add: cs_set)
    then obtain j where j: "j < length cs" "cs ! j = c" by (meson in_set_conv_nth)
    define i where "i = next_object_id s + j"
    define xs where "xs = [next_object_id s ..< next_object_id s + length cs]"
    define ys where "ys = map (\<lambda>c. new_track (rects ! c)) cs"
    have "map_of (zip xs ys) (xs ! j) = Some (ys ! j)"
      using j(1) by (intro map_of_zip_nth) (simp_all add: xs_def ys_def)
    moreover have "xs ! j = i" "ys ! j = new_track (rects ! c)"
      using j by (simp_all add: xs_def ys_def i_def)
    ultimately have z: "map_of news i = Some (new_track (rects ! c))"
      by (simp add: news_def xs_def ys_def)
    have "map_of (objects s2) i = None"
    proof (rule ccontr)
      assume "map_of (objects s2) i \<noteq> None"
      then have "i \<in> fst ` set (objects s2)" by (simp add: map_of_eq_None_iff)
      then have "i < next_object_id s2" using ok2 by (auto simp: tracker_ok_def list_all_iff)
      then show False by (simp add: n2 i_def)
    qed
    then have "map_of (objects s3) i = Some (new_track (rects ! c))"
      using z by (simp add: o3 map_add_def)
    moreover have "next_object_id s \<le> i" by (simp add: i_def)
    ultimately show ?thesis by blast
  qed
  show "\<forall>p\<in>set (association rt s rects).
           map_of (objects (update rt s rects)) (fst (objects s ! fst p))
             = Some (matched (snd (objects s ! fst p)) (input_centroid (rects ! snd p)) (rects ! snd p))"
  proof
    fix p assume "p \<in> set (association rt s rects)"
    then have p: "p \<in> set G" by (simp add: G_def)
    then have "fst p < n" using bG by simp
    then show "map_of (objects (update rt s rects)) (fst (objects s ! fst p))
             = Some (matched (snd (objects s ! fst p)) (input_centroid (rects ! snd p)) (rects ! snd p))"
      using matched_rows [OF p] by (simp add: up idr)
  qed
  show "\<forall>r<length (objects s). r \<notin> set (map fst (association rt s rects)) \<longrightarrow>
           map_of (objects (update rt s rects)) (fst (objects s ! r))
             = age_result (max_disappeared s) (Some (snd (objects s ! r)))"
    using unmatched_rows by (simp add: up idr G_def n_def)
  show "\<forall>c<length rects. c \<notin> set (map snd (association rt s rects)) \<longrightarrow>
           (\<exists>i\<ge>next_object_id s. map_of (objects (update rt s rects)) i = Some (new_track (rects ! c)))"
    using unmatched_cols by (simp add: up G_def)
  show "next_object_id (update rt s rects)
           = next_object_id s
             + length (filter (\<lambda>c. c \<notin> set (map snd (association rt s rects))) [0..<length rects])"
    using n3 by (simp add: up cs_len G_def)
qed

subsection \<open>The association of an update\<close>

lemma run_pair_frames:
  "run reference_runtime camera_tracker pair_frames =
     \<lparr>next_object_id = 2,
      objects = [(0, new_track (obs 0 Male)), (1, new_track (obs 10 Female))],
      max_disappeared = 50, max_distance = 150\<rparr>"
  by (simp add: run_def pair_frames_def tracker_eval new_track_def)

lemma distances_pair:
  "distances (run reference_runtime camera_tracker pair_frames) pair_rects = [[9, 3600], [49, 2500]]"
  by (simp add: run_pair_frames distances_def dist_sq_def new_track_def obs_def pair_rects_def
      input_centroid_def trunc_half_def)

lemma association_pair:
  "association reference_runtime (run reference_runtime camera_tracker pair_frames) pair_rects = [(0, 0)]"
  unfolding run_pair_frames
  by (simp add: association_def pair_rects_def tracker_eval new_track_def)

lemma spec_association_pair:
  "spec_association (run reference_runtime camera_tracker pair_frames) pair_rects = [(0, 0), (1, 1)]"
  unfolding spec_association_def distances_pair
  by (simp add: greedy_def greedy_accept_def by_distance_def all_pairs_def near_enough_def
      run_pair_frames pair_rects_def)

lemma update_pair:
  "map (\<lambda>p. (fst p, gender_history (snd p), hits (snd p), disappeared (snd p)))
       (objects (update reference_runtime (run reference_runtime camera_tracker pair_frames) pair_rects))
     = [(0, [Male, Male], 2, 0), (1, [Female], 1, 1), (2, [Female], 1, 0)]"
  unfolding run_pair_frames
  by (simp add: pair_rects_def tracker_eval new_track_def)


text \<open>
  C1 as stated fails. Two tracks, at \<open>(1, 1)\<close> and \<open>(11, 1)\<close>, and two observations, at
  \<open>(4, 1)\<close> and \<open>(61, 1)\<close>: both tracks are nearest to the first observation. The greedy
  pass over all pairs matches the second track with the second observation (distance 50).
  \<open>update\<close> matches the first track only; the second track ages and the second
  observation becomes a new track.
\<close>

theorem association_not_all_pairs:
  "distances (run reference_runtime camera_tracker pair_frames) pair_rects = [[9, 3600], [49, 2500]]
   \<and> association reference_runtime (run reference_runtime camera_tracker pair_frames) pair_rects = [(0, 0)]
   \<and> spec_association (run reference_runtime camera_tracker pair_frames) pair_rects = [(0, 0), (1, 1)]
   \<and> map (\<lambda>p. (fst p, gender_history (snd p), hits (snd p), disappeared (snd p)))
         (objects (update reference_runtime (run reference_runtime camera_tracker pair_frames) pair_rects))
       = [(0, [Male, Male], 2, 0), (1, [Female], 1, 1), (2, [Female], 1, 0)]"
  by (simp only: distances_pair association_pair spec_association_pair update_pair)

text \<open>
  C1, as amended. In every update of the camera's tracker with existing tracks and new
  observations, the data association is the greedy pass of the specification over the
  pairs of each existing track with its nearest observation only: these pairs, in
  ascending order of distance (as \<open>argsort\<close> returns the tracks), are processed in that
  order, and a pair is accepted exactly when neither its track nor its observation is
  already matched and the distance is at most 150. Every accepted pair's track is updated
  from its observation, every other track ages (and is removed when it has been unseen for
  more than 50 frames), and every observation outside the accepted pairs is registered as
  a new track under a new id; the id counter grows by the number of these observations.
\<close>

theorem update_association:
  assumes "runtime_ok rt" and "s = run rt camera_tracker frames"
    and "objects s \<noteq> []" and "rects \<noteq> []"
  shows "association rt s rects
           = greedy (distances s rects) 150 (candidates rt (distances s rects))
    \<and> mset (candidates rt (distances s rects)) = mset (nearest_pairs (distances s rects))
    \<and> sorted (map (\<lambda>p. distances s rects ! fst p ! snd p) (candidates rt (distances s rects)))
    \<and> list_all (\<lambda>p. map_of (objects (update rt s rects)) (fst (objects s ! fst p))
                       = Some (matched (snd (objects s ! fst p))
                                 (input_centroid (rects ! snd p)) (rects ! snd p)))
         (association rt s rects)
    \<and> list_all (\<lambda>r. map_of (objects (update rt s rects)) (fst (objects s ! r))
                       = age_result 50 (Some (snd (objects s ! r))))
         (filter (\<lambda>r. r \<notin> set (map fst (association rt s rects))) [0..<length (objects s)])
    \<and> list_all (\<lambda>c. \<exists>i\<ge>next_object_id s.
                       map_of (objects (update rt s rects)) i = Some (new_track (rects ! c)))
         (filter (\<lambda>c. c \<notin> set (map snd (association rt s rects))) [0..<length rects])
    \<and> next_object_id (update rt s rects)
         = next_object_id s
           + length (filter (\<lambda>c. c \<notin> set (map snd (association rt s rects))) [0..<length rects])"
proof -
  have ok: "tracker_ok s" using assms(2) by (simp add: camera_tracker_ok)
  have md: "max_disappeared s = 50" "max_distance s = 150"
    using assms(2) by (simp_all add: camera_tracker_fields)
  have ne: "\<forall>row\<in>set (distances s rects). row \<noteq> []"
    using distances_rows(2) [of s rects] assms(4) by auto
  have a: "association rt s rects
           = greedy (distances s rects) 150 (candidates rt (distances s rects))"
    by (simp add: association_nearest nearest_association_def md)
  note srt = candidates_sorted [OF assms(1) ne]
  note e = update_effect [OF assms(1) ok assms(3,4)]
  have b: "list_all (\<lambda>p. map_of (objects (update rt s rects)) (fst (objects s ! fst p))
                       = Some (matched (snd (objects s ! fst p))
                                 (input_centroid (rects ! snd p)) (rects ! snd p)))
         (association rt s rects)"
    using e(1) by (simp add: list_all_iff)
  have c: "list_all (\<lambda>r. map_of (objects (update rt s rects)) (fst (objects s ! r))
                       = age_result 50 (Some (snd (objects s ! r))))
         (filter (\<lambda>r. r \<notin> set (map fst (association rt s rects))) [0..<length (objects s)])"
    using e(2) by (simp add: list_all_iff md)
  have d: "list_all (\<lambda>c. \<exists>i\<ge>next_object_id s.
                       map_of (objects (update rt s rects)) i = Some (new_track (rects ! c)))
         (filter (\<lambda>c. c \<notin> set (map snd (association rt s rects))) [0..<length rects])"
    using e(3) by (simp add: list_all_iff)
  show ?thesis using a srt b c d e(4) by blast
qed

theorem update_association_witness:
  "runtime_ok reference_runtime
   \<and> objects (run reference_runtime camera_tracker pair_frames) \<noteq> [] \<and> pair_rects \<noteq> []
   \<and> greedy [[9, 3600], [49, 2500]] 150 (candidates reference_runtime [[9, 3600], [49, 2500]])
       = [(0, 0)]
   \<and> sorted (map (\<lambda>p. [[9 :: int, 3600], [49, 2500]] ! fst p ! snd p)
               (candidates reference_runtime [[9, 3600], [49, 2500]]))
   \<and> list_all (\<lambda>p. map_of (objects (update reference_runtime
                                        (run reference_runtime camera_tracker pair_frames) pair_rects))
                       (fst (objects (run reference_runtime camera_tracker pair_frames) ! fst p))
                       = Some (matched (snd (objects (run reference_runtime camera_tracker pair_frames) ! fst p))
                                 (input_centroid (pair_rects ! snd p)) (pair_rects ! snd p)))
         [(0, 0)]
   \<and> list_all (\<lambda>r. map_of (objects (update reference_runtime
                                        (run reference_runtime camera_tracker pair_frames) pair_rects))
                       (fst (objects (run reference_runtime camera_tracker pair_frames) ! r))
                       = age_result 50 (Some (snd (objects (run reference_runtime camera_tracker pair_frames) ! r))))
         [1]
   \<and> list_all (\<lambda>c. \<exists>i\<ge>next_object_id (run reference_runtime camera_tracker pair_frames).
                       map_of (objects (update reference_runtime
                                         (run reference_runtime camera_tracker pair_frames) pair_rects)) i
                         = Some (new_track (pair_rects ! c)))
         [1]
   \<and> next_object_id (update reference_runtime
                        (run reference_runtime camera_tracker pair_frames) pair_rects) = 3"
proof -
  have n1: "objects (run reference_runtime camera_tracker pair_frames) \<noteq> []"
    by (simp add: run_pair_frames)
  have n2: "pair_rects \<noteq> []" by (simp add: pair_rects_def)
  have l: "length (objects (run reference_runtime camera_tracker pair_frames)) = 2"
    "length pair_rects = 2"
    "next_object_id (run reference_runtime camera_tracker pair_frames) = 2"
    by (simp_all add: run_pair_frames pair_rects_def)
  have u: "[0..<2] = [0, 1]" by (simp add: upt_rec)
  note w = update_association [OF runtime_ok_reference refl n1 n2,
      unfolded association_pair distances_pair l u]
  have g: "greedy [[9, 3600], [49, 2500]] 150 (candidates reference_runtime [[9, 3600], [49, 2500]])
       = [(0, 0)]"
    using w by simp
  show ?thesis
    using w n1 n2 runtime_ok_reference by (simp add: g l)
qed

section \<open>Crowd aggregation: what is counted\<close>

lemma foldl_count_step:
  "foldl count_step (m, f) objs =
     (m + length (confirmed Male objs), f + length (confirmed Female objs))"
  by (induction objs arbitrary: m f) (auto simp: confirmed_def)

text \<open>
  C5. The aggregation counts as male (female) exactly the tracks with \<open>hits \<ge> 10\<close> whose
  label is Male (Female), and the total is the sum of the two counts. A track labelled
  Unknown changes none of the three counts, a track with 9 hits changes none, and a track
  with 10 hits and the label Male (Female) adds one to the male (female) count.
\<close>

theorem get_frame_counts_spec:
  "get_frame_counts objs ''male'' = Some (length (confirmed Male objs))
   \<and> get_frame_counts objs ''female'' = Some (length (confirmed Female objs))
   \<and> get_frame_counts objs ''total''
         = Some (length (confirmed Male objs) + length (confirmed Female objs))
   \<and> get_frame_counts (objs @ [(i, t\<lparr>gender := Unknown\<rparr>)]) = get_frame_counts objs
   \<and> get_frame_counts (objs @ [(i, t\<lparr>hits := 9\<rparr>)]) = get_frame_counts objs
   \<and> get_frame_counts (objs @ [(i, t\<lparr>hits := 10, gender := Male\<rparr>)]) ''male''
         = Some (length (confirmed Male objs) + 1)
   \<and> get_frame_counts (objs @ [(i, t\<lparr>hits := 10, gender := Female\<rparr>)]) ''female''
         = Some (length (confirmed Female objs) + 1)"
  by (simp add: get_frame_counts_def foldl_count_step confirmed_def)


section \<open>Advertisement manager: invariants of a run\<close>

lemma ids_ok_the_demo:
  "ids_ok the_demo_male_ads" "ids_ok the_demo_female_ads" "ids_ok the_demo_neutral_ads"
  by (simp_all add: ids_ok_def the_demo_male_ads_def the_demo_female_ads_def the_demo_neutral_ads_def)

lemma the_demo_neutral_nonempty: "the_demo_neutral_ads \<noteq> []"
  by (simp add: the_demo_neutral_ads_def)

lemma catalogs_ok_init:
  "ids_ok m0 \<Longrightarrow> ids_ok f0 \<Longrightarrow> ids_ok n0 \<Longrightarrow> catalogs_ok (AdManager db m0 f0 n0)"
  by (simp add: catalogs_ok_def AdManager_def ids_ok_the_demo the_demo_neutral_nonempty)

lemma showing_ok_init: "showing_ok (AdManager db m0 f0 n0)"
  by (simp add: showing_ok_def AdManager_def)

lemma track_local_fields:
  "current_ad (track_local s a i g st) = current_ad s"
  "ad_start_time (track_local s a i g st) = ad_start_time s"
  "last_majority_gender (track_local s a i g st) = last_majority_gender s"
  "last_ad_change_time (track_local s a i g st) = last_ad_change_time s"
  "ad_history (track_local s a i g st) = ad_history s"
  "mongo_db (track_local s a i g st) = mongo_db s"
  "demo_male_ads (track_local s a i g st) = demo_male_ads s"
  "demo_female_ads (track_local s a i g st) = demo_female_ads s"
  "demo_neutral_ads (track_local s a i g st) = demo_neutral_ads s"
  "male_ads (track_local s a i g st) = male_ads s"
  "female_ads (track_local s a i g st) = female_ads s"
  "neutral_ads (track_local s a i g st) = neutral_ads s"
  by (simp_all add: track_local_def Let_def)

lemma track_ad_display_fields:
  "current_ad (track_ad_display s a env) = current_ad s"
  "ad_start_time (track_ad_display s a env) = ad_start_time s"
  "last_majority_gender (track_ad_display s a env) = last_majority_gender s"
  "last_ad_change_time (track_ad_display s a env) = last_ad_change_time s"
  "ad_history (track_ad_display s a env) = ad_history s"
  "demo_male_ads (track_ad_display s a env) = demo_male_ads s"
  "demo_female_ads (track_ad_display s a env) = demo_female_ads s"
  "demo_neutral_ads (track_ad_display s a env) = demo_neutral_ads s"
  "male_ads (track_ad_display s a env) = male_ads s"
  "female_ads (track_ad_display s a env) = female_ads s"
  "neutral_ads (track_ad_display s a env) = neutral_ads s"
  by (simp_all add: track_ad_display_def Let_def track_local_fields split: option.splits sum.splits)

lemma pick_ads_list_cases:
  "\<exists>sel. fst (pick_ads_list s g) = sel s \<and> setters sel (snd (pick_ads_list s g))"
  unfolding pick_ads_list_def setters_def Let_def
  by (auto split: if_splits)

lemma pick_ads_list_nonempty:
  "demo_neutral_ads s \<noteq> [] \<Longrightarrow> fst (pick_ads_list s g) \<noteq> []"
  by (simp add: pick_ads_list_def Let_def)

lemma setters_ids_ok:
  "setters sel sb \<Longrightarrow> catalogs_ok s \<Longrightarrow> ids_ok (sel s)"
  by (auto simp: setters_def catalogs_ok_def)

lemma setters_catalogs_ok:
  "setters sel sb \<Longrightarrow> catalogs_ok s \<Longrightarrow> ids_ok l \<Longrightarrow> l \<noteq> [] \<Longrightarrow> catalogs_ok (sb l s)"
  by (auto simp: setters_def catalogs_ok_def)

lemma setters_fields:
  assumes "setters sel sb"
  shows "current_ad (sb l s) = current_ad s"
    and "ad_start_time (sb l s) = ad_start_time s"
    and "last_majority_gender (sb l s) = last_majority_gender s"
    and "last_ad_change_time (sb l s) = last_ad_change_time s"
    and "ad_history (sb l s) = ad_history s"
    and "mongo_db (sb l s) = mongo_db s"
    and "local_analytics (sb l s) = local_analytics s"
  using assms by (auto simp: setters_def)

lemma ids_ok_nth: "ids_ok l \<Longrightarrow> k < length l \<Longrightarrow> map_of (l ! k) ''id'' \<noteq> Some []"
  by (simp add: ids_ok_def list_all_length)

lemma ids_ok_list_update:
  "ids_ok l \<Longrightarrow> map_of a ''id'' \<noteq> Some [] \<Longrightarrow> ids_ok (l[k := a])"
  by (auto simp: ids_ok_def list_all_iff dest: set_update_subset_insert [THEN subsetD])

lemma with_id_ok: "map_of a ''id'' \<noteq> Some [] \<Longrightarrow> \<exists>i. map_of (with_id g a) ''id'' = Some i \<and> i \<noteq> []"
  by (auto simp: with_id_def update_conv')

lemma stamped_id: "map_of (stamped g env a) ''id'' = map_of (with_id g a) ''id''"
  by (simp add: stamped_def update_conv')

lemma select_ad_Inr:
  assumes "fst (pick_ads_list s g) \<noteq> []"
  shows "\<exists>s'. select_ad s g env =
           Inr (stamped g env (fst (pick_ads_list s g) ! (choice env mod length (fst (pick_ads_list s g)))), s')
         \<and> current_ad s' = Some (stamped g env (fst (pick_ads_list s g) ! (choice env mod length (fst (pick_ads_list s g)))))
         \<and> ad_start_time s' = Some (start_time env)
         \<and> last_majority_gender s' = Some g
         \<and> last_ad_change_time s' = (last_ad_change_time s)(g \<mapsto> change_time env)
         \<and> (catalogs_ok s \<longrightarrow> catalogs_ok s')"
proof -
  obtain l sb where p: "pick_ads_list s g = (l, sb)" by (cases "pick_ads_list s g")
  obtain sel where sel: "l = sel s" "setters sel sb"
    using pick_ads_list_cases [of s g] p by auto
  have l: "l \<noteq> []" using assms p by simp
  let ?k = "choice env mod length l"
  have k: "?k < length l" using l by simp
  note sf = setters_fields [OF sel(2)]
  have cat: "catalogs_ok s \<Longrightarrow> catalogs_ok (sb (l[?k := with_id g (l ! ?k)]) s)"
  proof -
    assume c: "catalogs_ok s"
    have "ids_ok l" using setters_ids_ok [OF sel(2) c] sel(1) by simp
    then have "map_of (l ! ?k) ''id'' \<noteq> Some []" using k by (rule ids_ok_nth)
    then have "map_of (with_id g (l ! ?k)) ''id'' \<noteq> Some []"
      using with_id_ok [of "l ! ?k" g] by auto
    then have "ids_ok (l[?k := with_id g (l ! ?k)])" using \<open>ids_ok l\<close> by (simp add: ids_ok_list_update)
    then show ?thesis using setters_catalogs_ok [OF sel(2) c] l by simp
  qed
  have cat_eq: "catalogs_ok (m\<lparr>current_ad := a, ad_start_time := b, last_ad_change_time := c, last_majority_gender := d\<rparr>) = catalogs_ok m" for m a b c d
    by (simp add: catalogs_ok_def)
  have cat_tr: "catalogs_ok (track_ad_display m a e) = catalogs_ok m" for m a e
    by (simp add: catalogs_ok_def track_ad_display_fields)
  have cat_h: "catalogs_ok (m\<lparr>ad_history := h\<rparr>) = catalogs_ok m" for m h
    by (simp add: catalogs_ok_def)
  have cat1: "catalogs_ok s \<Longrightarrow> map_of (l ! ?k) ''id'' = None \<Longrightarrow>
      catalogs_ok (sb (l[?k := AList.update ''id'' (upper g @ ''_'' @ ad_name_clean (l ! ?k)) (l ! ?k)]) s)"
    using cat by (simp add: with_id_def)
  show ?thesis
    using l cat1
    by (simp add: select_ad_def p Let_def stamped_def with_id_def track_ad_display_fields sf cat_eq cat_tr cat_h)
qed


lemma select_ad_Inl:
  "fst (pick_ads_list s g) = [] \<Longrightarrow> select_ad s g env = Inl IndexError"
  by (cases "pick_ads_list s g") (simp add: select_ad_def)

lemma pick_ads_list_chain: "fst (pick_ads_list s g) = fallback_chain s g"
  by (simp add: pick_ads_list_def fallback_chain_def Let_def)

lemma stamped_nonempty: "stamped g env a \<noteq> []"
  by (simp add: stamped_def)

lemma should_show_ad_snd: "snd (should_show_ad s g counts now) = s"
  by (simp add: should_show_ad_def Let_def split: option.splits)

lemma showing_ok_step:
  assumes "showing_ok s" "clock_ok op"
  shows "showing_ok (ad_step s op)"
proof (cases op)
  case (ShouldShow g counts now)
  then show ?thesis using assms by (simp add: should_show_ad_snd)
next
  case (Select g env)
  show ?thesis
  proof (cases "fst (pick_ads_list s g) = []")
    case True
    then show ?thesis using assms Select by (simp add: select_ad_Inl)
  next
    case False
    from select_ad_Inr [OF False, of env] obtain s' where
      "select_ad s g env = Inr (stamped g env (fst (pick_ads_list s g) ! (choice env mod length (fst (pick_ads_list s g)))), s')"
      "current_ad s' = Some (stamped g env (fst (pick_ads_list s g) ! (choice env mod length (fst (pick_ads_list s g)))))"
      "ad_start_time s' = Some (start_time env)"
      by blast
    then show ?thesis using assms Select by (simp add: showing_ok_def stamped_nonempty)
  qed
next
  case (GetCurrent now)
  then show ?thesis using assms by (simp add: get_current_ad_def showing_ok_def)
next
  case Clear
  then show ?thesis using assms by (simp add: clear_ad_def showing_ok_def)
qed

lemma nonempty_step:
  assumes "demo_neutral_ads s \<noteq> []"
  shows "demo_neutral_ads (ad_step s op) \<noteq> []"
proof (cases op)
  case (Select g env)
  obtain l sb where p: "pick_ads_list s g = (l, sb)" by (cases "pick_ads_list s g")
  obtain sel where sel: "l = sel s" "setters sel sb"
    using pick_ads_list_cases [of s g] p by auto
  have l: "l \<noteq> []" using pick_ads_list_nonempty [OF assms, of g] p by simp
  have "demo_neutral_ads (sb (l[k := a]) s) \<noteq> []" for k a
    using sel l assms by (auto simp: setters_def)
  then show ?thesis
    using l Select assms by (simp add: select_ad_def p Let_def track_ad_display_fields)
next
  case (ShouldShow g counts now)
  then show ?thesis using assms by (simp add: should_show_ad_snd)
next
  case (GetCurrent now)
  then show ?thesis using assms by (simp add: get_current_ad_def)
next
  case Clear
  then show ?thesis using assms by (simp add: clear_ad_def)
qed

lemma catalogs_ok_step:
  assumes "catalogs_ok s"
  shows "catalogs_ok (ad_step s op)"
proof (cases op)
  case (Select g env)
  have ne: "fst (pick_ads_list s g) \<noteq> []"
    using assms by (simp add: pick_ads_list_nonempty catalogs_ok_def)
  from select_ad_Inr [OF ne, of env] assms Select show ?thesis by auto
next
  case (ShouldShow g counts now)
  then show ?thesis using assms by (simp add: should_show_ad_snd)
next
  case (GetCurrent now)
  then show ?thesis using assms by (simp add: get_current_ad_def catalogs_ok_def)
next
  case Clear
  then show ?thesis using assms by (simp add: clear_ad_def catalogs_ok_def)
qed

lemma showing_ok_run:
  "list_all clock_ok ops \<Longrightarrow> showing_ok s \<Longrightarrow> showing_ok (ad_run s ops)"
  unfolding ad_run_def
  by (induction ops arbitrary: s) (simp_all add: showing_ok_step)

lemma nonempty_run:
  "demo_neutral_ads s \<noteq> [] \<Longrightarrow> demo_neutral_ads (ad_run s ops) \<noteq> []"
  unfolding ad_run_def
  by (induction ops arbitrary: s) (simp_all add: nonempty_step)

lemma catalogs_ok_run:
  "catalogs_ok s \<Longrightarrow> catalogs_ok (ad_run s ops)"
  unfolding ad_run_def
  by (induction ops arbitrary: s) (simp_all add: catalogs_ok_step)

lemma should_show_ad_spec_decide:
  assumes "showing_ok s"
  shows "fst (should_show_ad s g counts now) = spec_decide s g counts now"
  using assms
  by (auto simp: should_show_ad_def spec_decide_def spec_cooldown_def showing_ok_def
      truthy_ad_def truthy_time_def AD_DISPLAY_DURATION_def AD_TRIGGER_DELAY_def Let_def
      split: option.splits)

lemma get_current_ad_cases:
  assumes "showing_ok s"
  shows "get_current_ad s now =
           (case current_ad s of
              Some a \<Rightarrow> (if now - the (ad_start_time s) < 15 then (Some a, s)
                          else (None, s\<lparr>current_ad := None, ad_start_time := None\<rparr>))
            | None \<Rightarrow> (None, s))"
  using assms
  by (auto simp: get_current_ad_def showing_ok_def truthy_ad_def truthy_time_def
      AD_DISPLAY_DURATION_def split: option.splits)

section \<open>The trigger decision\<close>


lemma clear_ad_fields:
  "current_ad (clear_ad s) = None"
  "ad_start_time (clear_ad s) = None"
  "last_majority_gender (clear_ad s) = last_majority_gender s"
  "last_ad_change_time (clear_ad s) = last_ad_change_time s"
  by (simp_all add: clear_ad_def)

text \<open>
  C6. In every state that the manager reaches from \<open>__init__\<close> (with a clock that never
  reads 0), the decision is the one of the specification: \<open>(False, None)\<close> when the total
  is 0; else, while an ad is showing and less than 15 seconds have passed since its start,
  \<open>(False, current ad)\<close> when the majority is the last majority and \<open>(True, majority)\<close>
  when it differs; otherwise \<open>(False, None)\<close> when this gender was triggered less than 2
  seconds ago and \<open>(True, majority)\<close> if not. After a selection for \<open>male\<close>, 5 seconds
  later the majority \<open>male\<close> gets \<open>(False, current ad)\<close> and the majority \<open>female\<close> gets
  \<open>(True, female)\<close>; after a selection for \<open>female\<close> and with no ad showing, a new
  attempt for \<open>female\<close> is suppressed after 1 second and permitted after 3 seconds.
\<close>

theorem should_show_ad_decision:
  assumes "list_all clock_ok ops" and "s = ad_run (AdManager db m0 f0 n0) ops"
  shows "fst (should_show_ad s g counts now) = spec_decide s g counts now
    \<and> (counts ''total'' = Some n \<and> 0 < n \<and> start_time env \<noteq> 0 \<longrightarrow>
         (\<exists>a. current_ad (ad_step s (Select ''male'' env)) = Some a
            \<and> fst (should_show_ad (ad_step s (Select ''male'' env)) ''male'' counts (start_time env + 5))
                = (False, TargetAd a))
         \<and> fst (should_show_ad (ad_step s (Select ''male'' env)) ''female'' counts (start_time env + 5))
                = (True, TargetGender ''female''))
    \<and> (counts ''total'' = Some n \<and> 0 < n \<longrightarrow>
         fst (should_show_ad (clear_ad (ad_step s (Select ''female'' env))) ''female'' counts
                (change_time env + 1)) = (False, NoTarget)
         \<and> fst (should_show_ad (clear_ad (ad_step s (Select ''female'' env))) ''female'' counts
                (change_time env + 3)) = (True, TargetGender ''female''))"
proof -
  have ok: "showing_ok s"
    using assms by (simp add: showing_ok_run showing_ok_init)
  have ne: "fst (pick_ads_list s g') \<noteq> []" for g'
    using assms(2) by (simp add: pick_ads_list_nonempty nonempty_run AdManager_def the_demo_neutral_nonempty)
  have general: "fst (should_show_ad s g counts now) = spec_decide s g counts now"
    using ok by (rule should_show_ad_spec_decide)
  have male: "(\<exists>a. current_ad (ad_step s (Select ''male'' env)) = Some a
            \<and> fst (should_show_ad (ad_step s (Select ''male'' env)) ''male'' counts (start_time env + 5))
                = (False, TargetAd a))
         \<and> fst (should_show_ad (ad_step s (Select ''male'' env)) ''female'' counts (start_time env + 5))
                = (True, TargetGender ''female'')"
    if c: "counts ''total'' = Some n" "0 < n" "start_time env \<noteq> 0"
  proof -
    from select_ad_Inr [OF ne, of "''male''" env] obtain s' a where
      s': "select_ad s ''male'' env = Inr (a, s')" "current_ad s' = Some a"
        "ad_start_time s' = Some (start_time env)" "last_majority_gender s' = Some ''male''"
      by blast
    have step: "ad_step s (Select ''male'' env) = s'" using s' by simp
    have ok': "showing_ok s'"
      using showing_ok_step [OF ok, of "Select ''male'' env"] c step by simp
    show ?thesis
      unfolding step
      using s' c by (simp add: should_show_ad_spec_decide [OF ok'] spec_decide_def)
  qed
  have female: "fst (should_show_ad (clear_ad (ad_step s (Select ''female'' env))) ''female'' counts
                (change_time env + 1)) = (False, NoTarget)
         \<and> fst (should_show_ad (clear_ad (ad_step s (Select ''female'' env))) ''female'' counts
                (change_time env + 3)) = (True, TargetGender ''female'')"
    if c: "counts ''total'' = Some n" "0 < n"
  proof -
    from select_ad_Inr [OF ne, of "''female''" env] obtain s' a where
      s': "select_ad s ''female'' env = Inr (a, s')"
        "last_ad_change_time s' = (last_ad_change_time s)(''female'' \<mapsto> change_time env)"
      by blast
    have step: "ad_step s (Select ''female'' env) = s'" using s' by simp
    have ok': "showing_ok (clear_ad s')"
      by (simp add: showing_ok_def clear_ad_def)
    show ?thesis
      unfolding step
      using s' c by (simp add: should_show_ad_spec_decide [OF ok'] spec_decide_def spec_cooldown_def clear_ad_fields)
  qed
  show ?thesis using general male female by blast
qed

lemma env_at_simps:
  "start_time (env_at t) = t" "change_time (env_at t) = t"
  by (simp_all add: env_at_def)

theorem should_show_ad_decision_witness:
  "list_all clock_ok [] \<and> AdManager None [] [] [] = ad_run (AdManager None [] [] []) []
   \<and> fst (should_show_ad (AdManager None [] [] []) ''male'' [''total'' \<mapsto> 1] 100)
       = spec_decide (AdManager None [] [] []) ''male'' [''total'' \<mapsto> 1] 100
   \<and> [''total'' \<mapsto> 1::nat] ''total'' = Some 1 \<and> (0::nat) < 1 \<and> start_time (env_at 100) \<noteq> 0
   \<and> fst (should_show_ad (ad_step (AdManager None [] [] []) (Select ''male'' (env_at 100)))
            ''female'' [''total'' \<mapsto> 1] (start_time (env_at 100) + 5)) = (True, TargetGender ''female'')
   \<and> fst (should_show_ad (clear_ad (ad_step (AdManager None [] [] []) (Select ''female'' (env_at 100))))
            ''female'' [''total'' \<mapsto> 1] (change_time (env_at 100) + 1)) = (False, NoTarget)
   \<and> fst (should_show_ad (clear_ad (ad_step (AdManager None [] [] []) (Select ''female'' (env_at 100))))
            ''female'' [''total'' \<mapsto> 1] (change_time (env_at 100) + 3)) = (True, TargetGender ''female'')"
proof -
  have a: "list_all clock_ok []" by simp
  have b: "AdManager None [] [] [] = ad_run (AdManager None [] [] []) []" by (simp add: ad_run_def)
  have c: "[''total'' \<mapsto> 1::nat] ''total'' = Some 1 \<and> (0::nat) < 1 \<and> start_time (env_at 100) \<noteq> 0"
    by (simp add: env_at_simps)
  have d: "[''total'' \<mapsto> 1::nat] ''total'' = Some 1 \<and> (0::nat) < 1" by simp
  from should_show_ad_decision [OF a b, of "''male''" "[''total'' \<mapsto> 1]" 100 1 "env_at 100"] c d
  show ?thesis using a b by blast
qed

section \<open>Lazy expiry and the frame of the decision\<close>


text \<open>
  C9. In every state that the manager reaches from \<open>__init__\<close> (with a clock that never
  reads 0): when a current ad exists and less than 15 seconds have passed since its start,
  \<open>get_current_ad\<close> returns it and leaves the state as it is; otherwise it returns \<open>None\<close>
  and the current ad and its start time are cleared afterwards. In both cases the
  last-trigger times and the last majority gender are unchanged.
\<close>

theorem get_current_ad_lazy_expiry:
  assumes "list_all clock_ok ops" and "s = ad_run (AdManager db m0 f0 n0) ops"
  shows "(case current_ad s of
            Some a \<Rightarrow>
              (if now - the (ad_start_time s) < 15 then get_current_ad s now = (Some a, s)
               else fst (get_current_ad s now) = None
                    \<and> current_ad (snd (get_current_ad s now)) = None
                    \<and> ad_start_time (snd (get_current_ad s now)) = None)
          | None \<Rightarrow>
              fst (get_current_ad s now) = None
              \<and> current_ad (snd (get_current_ad s now)) = None
              \<and> ad_start_time (snd (get_current_ad s now)) = None)
     \<and> last_ad_change_time (snd (get_current_ad s now)) = last_ad_change_time s
     \<and> last_majority_gender (snd (get_current_ad s now)) = last_majority_gender s"
proof -
  have ok: "showing_ok s"
    using assms by (simp add: showing_ok_run showing_ok_init)
  show ?thesis
    using ok by (auto simp: get_current_ad_cases showing_ok_def split: option.splits)
qed

lemma s_after_select:
  "\<exists>a s'. ad_run (AdManager None [] [] []) [Select ''male'' (env_at 100)] = s'
      \<and> current_ad s' = Some a \<and> ad_start_time s' = Some 100"
proof -
  have ne: "fst (pick_ads_list (AdManager None [] [] []) ''male'') \<noteq> []"
    by (simp add: pick_ads_list_nonempty AdManager_def the_demo_neutral_nonempty)
  from select_ad_Inr [OF ne, of "env_at 100"] show ?thesis
    by (auto simp: ad_run_def env_at_simps)
qed

theorem get_current_ad_lazy_expiry_witness:
  "list_all clock_ok [Select ''male'' (env_at 100)]
   \<and> (\<exists>a. get_current_ad (ad_run (AdManager None [] [] []) [Select ''male'' (env_at 100)]) 105
          = (Some a, ad_run (AdManager None [] [] []) [Select ''male'' (env_at 100)]))
   \<and> fst (get_current_ad (ad_run (AdManager None [] [] []) [Select ''male'' (env_at 100)]) 115) = None
   \<and> current_ad (snd (get_current_ad (ad_run (AdManager None [] [] []) [Select ''male'' (env_at 100)]) 115)) = None
   \<and> last_majority_gender (snd (get_current_ad (ad_run (AdManager None [] [] []) [Select ''male'' (env_at 100)]) 115))
       = last_majority_gender (ad_run (AdManager None [] [] []) [Select ''male'' (env_at 100)])"
proof -
  have a: "list_all clock_ok [Select ''male'' (env_at 100)]" by (simp add: env_at_simps)
  obtain ad s' where s': "ad_run (AdManager None [] [] []) [Select ''male'' (env_at 100)] = s'"
    "current_ad s' = Some ad" "ad_start_time s' = Some 100"
    using s_after_select by blast
  from get_current_ad_lazy_expiry [OF a s'(1) [symmetric], of 105]
       get_current_ad_lazy_expiry [OF a s'(1) [symmetric], of 115]
  show ?thesis using a s' by simp
qed

text \<open>
  C10, as amended. \<open>should_show_ad\<close> leaves the whole manager as it was. \<open>get_current_ad\<close>
  and \<open>clear_ad\<close> change at most the current ad and its start time: every other field
  (last-trigger times, last majority gender, ad history, analytics, catalogs) is as before.
\<close>

theorem should_show_ad_read_only:
  "snd (should_show_ad s g counts now) = s
   \<and> (snd (get_current_ad s now))\<lparr>current_ad := current_ad s, ad_start_time := ad_start_time s\<rparr> = s
   \<and> (clear_ad s)\<lparr>current_ad := current_ad s, ad_start_time := ad_start_time s\<rparr> = s"
  by (simp add: should_show_ad_snd get_current_ad_def clear_ad_def)

text \<open>
  C10 as stated fails for "all mutation happens only in \<open>select_ad\<close>": 15 seconds after a
  selection, \<open>get_current_ad\<close> clears the current ad.
\<close>

theorem get_current_ad_mutates:
  "current_ad (ad_run (AdManager None [] [] []) [Select ''male'' (env_at 100)]) \<noteq> None
   \<and> current_ad (ad_step (ad_run (AdManager None [] [] []) [Select ''male'' (env_at 100)]) (GetCurrent 115)) = None"
proof -
  obtain ad s' where s': "ad_run (AdManager None [] [] []) [Select ''male'' (env_at 100)] = s'"
    "current_ad s' = Some ad" "ad_start_time s' = Some 100"
    using s_after_select by blast
  have "showing_ok s'"
    using showing_ok_run [of "[Select ''male'' (env_at 100)]" "AdManager None [] [] []"] s'(1)
    by (simp add: env_at_simps showing_ok_init)
  then show ?thesis
    using s' by (simp add: get_current_ad_cases)
qed

section \<open>Selection never fails\<close>


lemma stamped_store_fails [simp]: "stamped g (env\<lparr>store_fails := b\<rparr>) a = stamped g env a"
  by (simp add: stamped_def)

lemma select_ad_result_store_fails:
  "map_sum id fst (select_ad s g (env\<lparr>store_fails := True\<rparr>))
     = map_sum id fst (select_ad s g (env\<lparr>store_fails := False\<rparr>))"
proof (cases "fst (pick_ads_list s g) = []")
  case True
  then show ?thesis by (simp add: select_ad_Inl)
next
  case False
  from select_ad_Inr [OF False, of "env\<lparr>store_fails := True\<rparr>"]
       select_ad_Inr [OF False, of "env\<lparr>store_fails := False\<rparr>"]
  show ?thesis by auto
qed

text \<open>
  C7. In every state whose catalogs are as \<open>__init__\<close> leaves them (a non-empty neutral demo
  catalog, no empty id), \<open>select_ad\<close> does not raise: it returns the ad drawn from the
  fallback chain (local inventory, then the demo catalog of the gender, then the neutral
  demo catalog), with a non-empty \<open>id\<close>, and the catalogs stay so. Every state of a run
  from \<open>__init__\<close> has such catalogs. Whether the call to the analytics store raises does
  not change whether \<open>select_ad\<close> returns, nor the ad it returns.
\<close>

theorem select_ad_never_fails:
  "(catalogs_ok s \<longrightarrow>
      (\<exists>s' i. select_ad s g env
                 = Inr (stamped g env (fallback_chain s g ! (choice env mod length (fallback_chain s g))), s')
          \<and> map_of (stamped g env (fallback_chain s g ! (choice env mod length (fallback_chain s g)))) ''id''
              = Some i
          \<and> i \<noteq> [] \<and> catalogs_ok s'))
   \<and> (ids_ok m0 \<and> ids_ok f0 \<and> ids_ok n0 \<longrightarrow> catalogs_ok (ad_run (AdManager db m0 f0 n0) ops))
   \<and> map_sum id fst (select_ad s g (env\<lparr>store_fails := True\<rparr>))
       = map_sum id fst (select_ad s g (env\<lparr>store_fails := False\<rparr>))"
proof -
  have first: "\<exists>s' i. select_ad s g env
                 = Inr (stamped g env (fallback_chain s g ! (choice env mod length (fallback_chain s g))), s')
          \<and> map_of (stamped g env (fallback_chain s g ! (choice env mod length (fallback_chain s g)))) ''id''
              = Some i
          \<and> i \<noteq> [] \<and> catalogs_ok s'"
    if c: "catalogs_ok s"
  proof -
    have ne: "fst (pick_ads_list s g) \<noteq> []"
      using c by (simp add: pick_ads_list_nonempty catalogs_ok_def)
    let ?l = "fallback_chain s g"
    let ?k = "choice env mod length ?l"
    have l: "?l \<noteq> []" using ne by (simp add: pick_ads_list_chain)
    obtain sel where sel: "?l = sel s" "setters sel (snd (pick_ads_list s g))"
      using pick_ads_list_cases [of s g] by (auto simp: pick_ads_list_chain)
    have "ids_ok ?l" using setters_ids_ok [OF sel(2) c] sel(1) by simp
    then have "map_of (?l ! ?k) ''id'' \<noteq> Some []" using l by (simp add: ids_ok_nth)
    then obtain i where i: "map_of (stamped g env (?l ! ?k)) ''id'' = Some i" "i \<noteq> []"
      using with_id_ok [of "?l ! ?k" g] by (auto simp: stamped_id)
    from select_ad_Inr [OF ne, of env] c i show ?thesis
      by (auto simp: pick_ads_list_chain)
  qed
  have second: "catalogs_ok (ad_run (AdManager db m0 f0 n0) ops)"
    if "ids_ok m0 \<and> ids_ok f0 \<and> ids_ok n0"
    using that by (simp add: catalogs_ok_run catalogs_ok_init)
  show ?thesis
    using first second select_ad_result_store_fails by blast
qed

lemma ids_ok_Nil: "ids_ok []"
  by (simp add: ids_ok_def)

lemma catalogs_ok_depleted: "catalogs_ok depleted"
  by (simp add: depleted_def catalogs_ok_def AdManager_def ids_ok_the_demo the_demo_neutral_nonempty ids_ok_Nil)

lemma fallback_chain_depleted: "fallback_chain depleted ''male'' = the_demo_neutral_ads"
  by (simp add: depleted_def fallback_chain_def AdManager_def the_demo_neutral_nonempty)

theorem select_ad_never_fails_witness:
  "catalogs_ok depleted
   \<and> male_ads depleted = [] \<and> demo_male_ads depleted = []
   \<and> (\<exists>s'. select_ad depleted ''male'' ((env_at 100)\<lparr>store_fails := True\<rparr>)
              = Inr (stamped ''male'' (env_at 100) (hd the_demo_neutral_ads), s'))
   \<and> map_of (stamped ''male'' (env_at 100) (hd the_demo_neutral_ads)) ''id'' = Some ''NEUTRAL_001''
   \<and> ids_ok [] \<and> catalogs_ok (ad_run (AdManager None [] [] []) [])"
proof -
  have k: "choice (env_at 100) mod length the_demo_neutral_ads = 0"
    by (simp add: env_at_def)
  have h: "the_demo_neutral_ads ! 0 = hd the_demo_neutral_ads"
    by (simp add: the_demo_neutral_ads_def)
  have i: "map_of (stamped ''male'' (env_at 100) (hd the_demo_neutral_ads)) ''id'' = Some ''NEUTRAL_001''"
    by (simp add: stamped_id with_id_def the_demo_neutral_ads_def)
  have e: "male_ads depleted = [] \<and> demo_male_ads depleted = []"
    by (simp add: depleted_def)
  from select_ad_never_fails [of depleted "''male''" "(env_at 100)\<lparr>store_fails := True\<rparr>" "[]" "[]" "[]" None "[]"]
  show ?thesis
    using catalogs_ok_depleted ids_ok_Nil i e
    by (auto simp: fallback_chain_depleted k h)
qed

section \<open>Analytics read: the larger count\<close>


lemma add_mongo_ad_key: "add_mongo_ad d a = AList.update (doc_key a) a d"
  by (simp add: add_mongo_ad_def doc_key_def)

lemma map_of_add_mongo_ads:
  "map_of (foldl add_mongo_ad d ads) k =
     (case find (\<lambda>a. doc_key a = k) (rev ads) of Some a \<Rightarrow> Some a | None \<Rightarrow> map_of d k)"
proof (induction ads arbitrary: d)
  case Nil
  then show ?case by simp
next
  case (Cons a ads)
  have "map_of (foldl add_mongo_ad d (a # ads)) k =
          (case find (\<lambda>a. doc_key a = k) (rev ads) of
             Some a \<Rightarrow> Some a | None \<Rightarrow> map_of (add_mongo_ad d a) k)"
    by (simp only: foldl.simps Cons.IH)
  moreover have "map_of (add_mongo_ad d a) k = (if doc_key a = k then Some a else map_of d k)"
    by (simp add: add_mongo_ad_key update_conv')
  moreover have "find (\<lambda>a. doc_key a = k) (rev (a # ads)) =
      (case find (\<lambda>a. doc_key a = k) (rev ads) of
         None \<Rightarrow> (if doc_key a = k then Some a else None) | Some x \<Rightarrow> Some x)"
    by (simp add: find_app split: option.splits)
  ultimately show ?case
    by (simp split: option.splits)
qed

lemma map_of_add_local_ads:
  "distinct (map fst la) \<Longrightarrow>
   map_of (foldl add_local_ad d la) k =
     (case map_of la k of
        None \<Rightarrow> map_of d k
      | Some b \<Rightarrow> spec_merge (map_of d k) (Some b))"
proof (induction la arbitrary: d)
  case Nil
  then show ?case by simp
next
  case (Cons p la)
  obtain i b where p: "p = (i, b)" by (cases p)
  have d: "distinct (map fst la)" and i: "i \<notin> fst ` set la"
    using Cons.prems p by auto
  have none: "map_of la i = None" using i by (simp add: map_of_eq_None_iff)
  show ?case
    using none
    by (auto simp: Cons.IH [OF d] p update_conv' spec_merge_def split: option.splits)
qed

lemma map_of_all_ads_dict:
  "distinct (map fst la) \<Longrightarrow>
   map_of (all_ads_dict mongo_ads la) k = spec_merge (persisted mongo_ads k) (map_of la k)"
  by (simp add: all_ads_dict_def map_of_add_local_ads map_of_add_mongo_ads persisted_def
      spec_merge_def split: option.splits)

lemma set_by_count: "set (by_count xs) = set xs"
  by (simp add: by_count_def)


lemma merged_report_presents: "presents (merged_report mongo_ads la) (all_ads_dict mongo_ads la)"
  by (simp add: presents_def merged_report_def Let_def set_by_count comp_def)

lemma get_ad_analytics_read:
  "get_ad_analytics (s\<lparr>mongo_db := Some docs, local_analytics := la\<rparr>)
       \<lparr>handle_truth = Some True, find_fails = False\<rparr> = merged_report docs la"
  by (simp add: get_ad_analytics_def truth_test_def)

lemma get_ad_analytics_mirror:
  "get_ad_analytics (s\<lparr>mongo_db := Some docs, local_analytics := la\<rparr>)
       \<lparr>handle_truth = Some True, find_fails = True\<rparr> = merged_report [] la"
  "get_ad_analytics (s\<lparr>mongo_db := Some docs, local_analytics := la\<rparr>)
       \<lparr>handle_truth = Some False, find_fails = f\<rparr> = merged_report [] la"
  "get_ad_analytics (s\<lparr>mongo_db := None, local_analytics := la\<rparr>) env = merged_report [] la"
  by (simp_all add: get_ad_analytics_def truth_test_def)

lemmas analytics_eval = get_ad_analytics_def truth_test_def merged_report_def database_env_def
  empty_report_def AdManager_def all_ads_dict_def add_mongo_ad_def stat_A_def gender_is_def
  lower_def lower_char_def by_count_def ensure_count_def count_of_def Let_def

lemma get_ad_analytics_three_and_five:
  "get_ad_analytics three_and_five (database_env False) = empty_report"
  "rep_male_ads (get_ad_analytics three_and_five \<lparr>handle_truth = Some True, find_fails = False\<rparr>)
     = [stat_A 5]"
  "total_displays (get_ad_analytics three_and_five \<lparr>handle_truth = Some True, find_fails = False\<rparr>)
     = 5"
  by (simp_all add: three_and_five_def analytics_eval)

lemma get_ad_analytics_seven_and_five:
  "rep_male_ads (get_ad_analytics seven_and_five \<lparr>handle_truth = Some True, find_fails = False\<rparr>)
     = [stat_A 7]"
  "rep_male_ads (get_ad_analytics seven_and_five \<lparr>handle_truth = Some True, find_fails = True\<rparr>)
     = [stat_A 5]"
  by (simp_all add: seven_and_five_def analytics_eval)

lemma spec_merge_three_and_five:
  "spec_merge (persisted [stat_A 3] ''MALE_001'') (map_of (local_analytics three_and_five) ''MALE_001'')
     = Some (stat_A 5)"
  by (simp add: spec_merge_def persisted_def doc_key_def three_and_five_def stat_A_def count_of_def)

text \<open>
  C8 fails on the code for the handle that the application passes. \<open>get_ad_analytics\<close>
  tests \<open>if self.mongo_db:\<close> where \<open>__init__\<close> and \<open>_track_ad_display\<close> test
  \<open>is not None\<close>. With a handle whose truth test raises, as that of a pymongo \<open>Database\<close>
  does, the outer \<open>except\<close> returns the empty report whatever the two stores hold: with
  the persisted count 3 and the mirror count 5 for the same asset the report has no entry
  and the total 0, where the merge of the specification gives the count 5. With a handle
  whose truth test is true and a \<open>find()\<close> that returns, the report presents the merge of
  the two stores per asset id: an id known to both gets the persisted entry with the
  larger of the two counts, an id known to one store only gets that store's entry, and
  3 and 5 give 5. When \<open>find()\<close> raises, when the truth test is false, and when there is no
  handle, the report presents the mirror alone: with the persisted count 7 and the mirror
  count 5 and a \<open>find()\<close> that raises, the report shows 5.
\<close>

theorem get_ad_analytics_truth_test:
  assumes "distinct (map fst la)"
  shows "get_ad_analytics (s\<lparr>mongo_db := Some docs, local_analytics := la\<rparr>)
             \<lparr>handle_truth = None, find_fails = f\<rparr> = empty_report
    \<and> get_ad_analytics three_and_five (database_env False) = empty_report
    \<and> rep_male_ads empty_report = [] \<and> most_displayed empty_report = []
    \<and> total_displays empty_report = 0
    \<and> spec_merge (persisted [stat_A 3] ''MALE_001'')
         (map_of (local_analytics three_and_five) ''MALE_001'') = Some (stat_A 5)
    \<and> presents (get_ad_analytics (s\<lparr>mongo_db := Some docs, local_analytics := la\<rparr>)
                   \<lparr>handle_truth = Some True, find_fails = False\<rparr>) (all_ads_dict docs la)
    \<and> map_of (all_ads_dict docs la) k = spec_merge (persisted docs k) (map_of la k)
    \<and> rep_male_ads (get_ad_analytics three_and_five \<lparr>handle_truth = Some True, find_fails = False\<rparr>)
         = [stat_A 5]
    \<and> total_displays (get_ad_analytics three_and_five \<lparr>handle_truth = Some True, find_fails = False\<rparr>)
         = 5
    \<and> get_ad_analytics (s\<lparr>mongo_db := Some docs, local_analytics := la\<rparr>)
         \<lparr>handle_truth = Some True, find_fails = True\<rparr> = merged_report [] la
    \<and> get_ad_analytics (s\<lparr>mongo_db := Some docs, local_analytics := la\<rparr>)
         \<lparr>handle_truth = Some False, find_fails = f\<rparr> = merged_report [] la
    \<and> get_ad_analytics (s\<lparr>mongo_db := None, local_analytics := la\<rparr>) env = merged_report [] la
    \<and> presents (merged_report [] la) (all_ads_dict [] la)
    \<and> map_of (all_ads_dict [] la) k = map_of la k
    \<and> rep_male_ads (get_ad_analytics seven_and_five \<lparr>handle_truth = Some True, find_fails = False\<rparr>)
         = [stat_A 7]
    \<and> rep_male_ads (get_ad_analytics seven_and_five \<lparr>handle_truth = Some True, find_fails = True\<rparr>)
         = [stat_A 5]"
proof -
  have r: "get_ad_analytics (s\<lparr>mongo_db := Some docs, local_analytics := la\<rparr>)
             \<lparr>handle_truth = None, find_fails = f\<rparr> = empty_report"
    by (simp add: get_ad_analytics_def truth_test_def)
  have e: "rep_male_ads empty_report = []" "most_displayed empty_report = []"
    "total_displays empty_report = 0"
    by (simp_all add: empty_report_def)
  have p: "presents (get_ad_analytics (s\<lparr>mongo_db := Some docs, local_analytics := la\<rparr>)
                   \<lparr>handle_truth = Some True, find_fails = False\<rparr>) (all_ads_dict docs la)"
    by (simp only: get_ad_analytics_read merged_report_presents)
  have m: "map_of (all_ads_dict docs la) k = spec_merge (persisted docs k) (map_of la k)"
    using assms by (rule map_of_all_ads_dict)
  have m0: "map_of (all_ads_dict [] la) k = map_of la k"
    using map_of_all_ads_dict [OF assms, of "[]" k]
    by (simp add: persisted_def spec_merge_def split: option.splits)
  show ?thesis
    by (simp only: r e p m m0 get_ad_analytics_three_and_five get_ad_analytics_seven_and_five
        spec_merge_three_and_five get_ad_analytics_mirror merged_report_presents simp_thms)
qed

theorem get_ad_analytics_truth_test_witness:
  "distinct (map fst [(''MALE_001'', stat_A 5)])
   \<and> get_ad_analytics three_and_five \<lparr>handle_truth = None, find_fails = False\<rparr> = empty_report
   \<and> map_of (all_ads_dict [stat_A 3] [(''MALE_001'', stat_A 5)]) ''MALE_001'' = Some (stat_A 5)
   \<and> presents (get_ad_analytics three_and_five \<lparr>handle_truth = Some True, find_fails = False\<rparr>)
        (all_ads_dict [stat_A 3] [(''MALE_001'', stat_A 5)])"
proof -
  have d: "distinct (map fst [(''MALE_001'', stat_A 5)])" by simp
  have s: "three_and_five\<lparr>mongo_db := Some [stat_A 3], local_analytics := [(''MALE_001'', stat_A 5)]\<rparr>
             = three_and_five"
    by (simp add: three_and_five_def AdManager_def)
  have q: "spec_merge (persisted [stat_A 3] ''MALE_001'') (map_of [(''MALE_001'', stat_A 5)] ''MALE_001'')
             = Some (stat_A 5)"
    by (simp add: spec_merge_def persisted_def doc_key_def stat_A_def count_of_def)
  from get_ad_analytics_truth_test [OF d, where s = three_and_five and docs = "[stat_A 3]"
      and f = False and k = "''MALE_001''", unfolded s q]
  show ?thesis using d by blast
qed

end
